theory Spec2Isabelle
  imports Complex_Main "HOL-Library.Char_ord" "HOL-Library.List_Lexorder"
begin

section \<open>Data model\<close>

text \<open>
  The program is a pandas pipeline over the Titanic passenger table. A data frame is
  modelled column-wise, as pandas stores it: a row count (the length of the index) and
  an ordered list of named columns. A column carries its dtype in its constructor:
  \<^item> \<open>IntCol\<close>: dtype int64, which cannot hold an absent value;
  \<^item> \<open>FloatCol\<close>: dtype float64, \<open>None\<close> is NaN; the numbers are modelled by the
    reals (rounding and the infinities of IEEE doubles are not modelled);
  \<^item> \<open>TextCol\<close>: dtype object as \<open>read_csv\<close> produces it, strings with \<open>None\<close>
    for NaN.
  The other dtypes of pandas (bool, datetime, category) do not occur in the passenger
  file and are not modelled. Strings are byte lists; their order is the lexicographic
  order on character codes, which is how Python orders strings. The library calls are
  modelled after pandas 2 and scikit-learn 1.
\<close>

datatype error =
    FileNotFoundError string
  | FileExistsError
  | KeyError
  | TypeError
  | AttributeError
  | ValueError
  | IsADirectoryError

datatype column =
    IntCol "int list"
  | FloatCol "real option list"
  | TextCol "string option list"

record table =
  nrows :: nat
  columns :: "(string \<times> column) list"

fun col_len :: "column \<Rightarrow> nat" where
  "col_len (IntCol xs) = length xs"
| "col_len (FloatCol xs) = length xs"
| "col_len (TextCol xs) = length xs"

text \<open>\<open>isna\<close>: the mask of absent cells of a column (\<open>Series.isnull\<close>).\<close>

fun isna :: "column \<Rightarrow> bool list" where
  "isna (IntCol xs) = map (\<lambda>x. False) xs"
| "isna (FloatCol xs) = map (\<lambda>x. x = None) xs"
| "isna (TextCol xs) = map (\<lambda>x. x = None) xs"

text \<open>A frame is well formed when its column names are distinct and every column has
  one cell per row.\<close>

definition wf_table :: "table \<Rightarrow> bool" where
  "wf_table df \<longleftrightarrow>
     distinct (map fst (columns df)) \<and>
     list_all (\<lambda>p. col_len (snd p) = nrows df) (columns df)"

definition col_names :: "table \<Rightarrow> string list" where
  "col_names df = map fst (columns df)"

text \<open>\<open>name in df.columns\<close> and \<open>df[name]\<close>.\<close>

definition has_column :: "table \<Rightarrow> string \<Rightarrow> bool" where
  "has_column df name \<longleftrightarrow> name \<in> set (col_names df)"

definition get_column :: "table \<Rightarrow> string \<Rightarrow> column option" where
  "get_column df name = map_of (columns df) name"

text \<open>\<open>df[name] = c\<close>: an existing column is replaced where it stands, a new one is
  appended.\<close>

fun assign :: "string \<Rightarrow> column \<Rightarrow> (string \<times> column) list \<Rightarrow> (string \<times> column) list" where
  "assign name c [] = [(name, c)]"
| "assign name c (p # ps) = (if fst p = name then (name, c) # ps else p # assign name c ps)"

definition set_column :: "table \<Rightarrow> string \<Rightarrow> column \<Rightarrow> table" where
  "set_column df name c = df\<lparr>columns := assign name c (columns df)\<rparr>"

text \<open>\<open>df.drop(columns=names)\<close>, called only with names that are present.\<close>

definition drop_columns :: "table \<Rightarrow> string list \<Rightarrow> table" where
  "drop_columns df names = df\<lparr>columns := filter (\<lambda>p. fst p \<notin> set names) (columns df)\<rparr>"

text \<open>Sequencing of a step that may raise.\<close>

definition and_then :: "error + 'a \<Rightarrow> ('a \<Rightarrow> error + 'b) \<Rightarrow> error + 'b" where
  "and_then r f = (case r of Inl e \<Rightarrow> Inl e | Inr x \<Rightarrow> f x)"

section \<open>Series primitives\<close>

definition present :: "'a option list \<Rightarrow> 'a list" where
  "present xs = concat (map (\<lambda>x. case x of None \<Rightarrow> [] | Some v \<Rightarrow> [v]) xs)"

text \<open>\<open>Series.fillna(v)\<close>; filling with NaN (\<open>v = None\<close>) changes nothing.\<close>

definition fillna :: "'a option \<Rightarrow> 'a option list \<Rightarrow> 'a option list" where
  "fillna v xs = map (\<lambda>x. case x of None \<Rightarrow> v | Some y \<Rightarrow> Some y) xs"

text \<open>\<open>Series.median()\<close>: over the present values; NaN when there is none.\<close>

definition median :: "real option list \<Rightarrow> real option" where
  "median xs =
     (let s = sort (present xs); n = length s in
      if n = 0 then None
      else if odd n then Some (s ! (n div 2))
      else Some ((s ! (n div 2 - 1) + s ! (n div 2)) / 2))"

fun max_list :: "nat list \<Rightarrow> nat" where
  "max_list [] = 0"
| "max_list (x # xs) = max x (max_list xs)"

text \<open>\<open>Series.mode()\<close>: the most frequent present values, in ascending order; empty
  when no value is present.\<close>

definition mode :: "('a::linorder) option list \<Rightarrow> 'a list" where
  "mode xs =
     (let ps = present xs; vs = sort (remdups ps);
          m = max_list (map (count_list ps) vs)
      in filter (\<lambda>v. count_list ps v = m) vs)"

text \<open>\<open>s.mode()[0]\<close>: label 0 of the result, a \<open>KeyError\<close> when the result is empty.\<close>

definition mode0 :: "('a::linorder) option list \<Rightarrow> error + 'a" where
  "mode0 xs = (case mode xs of [] \<Rightarrow> Inl KeyError | v # vs \<Rightarrow> Inr v)"

section \<open>handle_missing_values\<close>

text \<open>
  Lines 39-41. The median of an int64 column is computed and \<open>fillna\<close> finds nothing to
  fill. On an object column \<open>median\<close> raises \<open>TypeError\<close> as soon as a string is present.
\<close>

definition fill_age :: "column \<Rightarrow> error + column" where
  "fill_age c =
     (case c of
        IntCol xs \<Rightarrow> Inr (IntCol xs)
      | FloatCol xs \<Rightarrow> Inr (FloatCol (fillna (median xs) xs))
      | TextCol xs \<Rightarrow> if present xs = [] then Inr (TextCol xs) else Inl TypeError)"

definition impute_age :: "table \<Rightarrow> error + table" where
  "impute_age df =
     (case get_column df ''Age'' of
        None \<Rightarrow> Inr df
      | Some c \<Rightarrow> and_then (fill_age c) (\<lambda>c'. Inr (set_column df ''Age'' c')))"

text \<open>Lines 44-46.\<close>

definition fill_embarked :: "column \<Rightarrow> error + column" where
  "fill_embarked c =
     (case c of
        IntCol xs \<Rightarrow> and_then (mode0 (map Some xs)) (\<lambda>m. Inr (IntCol xs))
      | FloatCol xs \<Rightarrow> and_then (mode0 xs) (\<lambda>m. Inr (FloatCol (fillna (Some m) xs)))
      | TextCol xs \<Rightarrow> and_then (mode0 xs) (\<lambda>m. Inr (TextCol (fillna (Some m) xs))))"

definition impute_embarked :: "table \<Rightarrow> error + table" where
  "impute_embarked df =
     (case get_column df ''Embarked'' of
        None \<Rightarrow> Inr df
      | Some c \<Rightarrow> and_then (fill_embarked c) (\<lambda>c'. Inr (set_column df ''Embarked'' c')))"

text \<open>Lines 50-54: \<open>0 if pd.isna(x) else 1\<close> on every cell, then the drop of \<open>Cabin\<close>.\<close>

definition cabin_flag :: "column \<Rightarrow> column" where
  "cabin_flag c = IntCol (map (\<lambda>b. if b then 0 else 1) (isna c))"

definition derive_has_cabin :: "table \<Rightarrow> table" where
  "derive_has_cabin df =
     (case get_column df ''Cabin'' of
        None \<Rightarrow> df
      | Some c \<Rightarrow> drop_columns (set_column df ''hasCabin'' (cabin_flag c)) [''Cabin''])"

text \<open>Lines 57-59: \<open>df.isnull().sum().sum()\<close> and \<open>df.dropna(inplace=True)\<close>. A row is
  kept when no column is absent in it.\<close>

definition null_count :: "table \<Rightarrow> nat" where
  "null_count df = sum_list (map (\<lambda>p. length (filter id (isna (snd p)))) (columns df))"

definition notna_rows :: "table \<Rightarrow> bool list" where
  "notna_rows df =
     foldr (\<lambda>p m. map2 (\<lambda>a b. \<not> a \<and> b) (isna (snd p)) m) (columns df)
       (replicate (nrows df) True)"

definition select :: "bool list \<Rightarrow> 'a list \<Rightarrow> 'a list" where
  "select m xs = map fst (filter snd (zip xs m))"

fun take_rows :: "bool list \<Rightarrow> column \<Rightarrow> column" where
  "take_rows m (IntCol xs) = IntCol (select m xs)"
| "take_rows m (FloatCol xs) = FloatCol (select m xs)"
| "take_rows m (TextCol xs) = TextCol (select m xs)"

definition keep_rows :: "bool list \<Rightarrow> table \<Rightarrow> table" where
  "keep_rows m df =
     \<lparr>nrows = length (filter id m),
      columns = map (\<lambda>p. (fst p, take_rows m (snd p))) (columns df)\<rparr>"

definition dropna :: "table \<Rightarrow> table" where
  "dropna df = keep_rows (notna_rows df) df"

definition drop_residual :: "table \<Rightarrow> table" where
  "drop_residual df = (if null_count df > 0 then dropna df else df)"

text \<open>The three imputation steps, lines 39-54, in the order of the source.\<close>

definition impute :: "table \<Rightarrow> error + table" where
  "impute df =
     and_then (impute_age df) (\<lambda>df1.
     and_then (impute_embarked df1) (\<lambda>df2.
     Inr (derive_has_cabin df2)))"

definition handle_missing_values :: "table \<Rightarrow> error + table" where
  "handle_missing_values df = and_then (impute df) (\<lambda>df3. Inr (drop_residual df3))"

text \<open>No cell of the frame is absent.\<close>

definition no_absent :: "table \<Rightarrow> bool" where
  "no_absent df = list_all (\<lambda>p. \<not> list_ex id (isna (snd p))) (columns df)"


text \<open>Every cell of the column is absent.\<close>

definition all_absent :: "column \<Rightarrow> bool" where
  "all_absent c = list_all (\<lambda>b. b) (isna c)"

text \<open>The column is an object column that holds a string.\<close>

fun holds_text :: "column \<Rightarrow> bool" where
  "holds_text (TextCol xs) = (present xs \<noteq> [])"
| "holds_text c = False"



section \<open>feature_engineering\<close>

text \<open>
  Line 81: \<open>str.extract\<close> with the pattern \<open>' ([A-Za-z]+)\.'\<close>, which is a search for
  the leftmost match. At a given position the pattern asks for a space, a run of ASCII
  letters and a period; the run is the longest one, since a shorter run would be
  followed by a letter, not by a period.
\<close>

definition is_letter :: "char \<Rightarrow> bool" where
  "is_letter c \<longleftrightarrow> (CHR ''A'' \<le> c \<and> c \<le> CHR ''Z'') \<or> (CHR ''a'' \<le> c \<and> c \<le> CHR ''z'')"

definition match_here :: "string \<Rightarrow> string option" where
  "match_here s =
     (case s of
        [] \<Rightarrow> None
      | c # r \<Rightarrow>
          if c = CHR '' '' then
            (case dropWhile is_letter r of
               [] \<Rightarrow> None
             | d # t \<Rightarrow> if d = CHR ''.'' \<and> takeWhile is_letter r \<noteq> []
                        then Some (takeWhile is_letter r) else None)
          else None)"

fun extract_title :: "string \<Rightarrow> string option" where
  "extract_title [] = None"
| "extract_title (c # r) =
     (case match_here (c # r) of Some w \<Rightarrow> Some w | None \<Rightarrow> extract_title r)"

text \<open>Lines 84-93, the dictionary as it is written.\<close>

definition title_mapping :: "(string \<times> string) list" where
  "title_mapping =
     [(''Mr'', ''Mr''),
      (''Miss'', ''Miss''), (''Mlle'', ''Miss''), (''Ms'', ''Miss''),
      (''Mrs'', ''Mrs''), (''Mme'', ''Mrs''),
      (''Master'', ''Master''),
      (''Dr'', ''Rare''), (''Rev'', ''Rare''), (''Col'', ''Rare''), (''Major'', ''Rare''),
      (''Lady'', ''Rare''), (''Countess'', ''Rare''), (''Jonkheer'', ''Rare''),
      (''Don'', ''Rare''), (''Dona'', ''Rare''), (''Capt'', ''Rare''), (''Sir'', ''Rare'')]"

text \<open>Lines 81 and 95 on one cell: an absent name and a name without a match give NaN,
  \<open>Series.map\<close> gives NaN for NaN and for a key the dictionary lacks.\<close>

definition str_extract :: "string option \<Rightarrow> string option" where
  "str_extract n = (case n of None \<Rightarrow> None | Some s \<Rightarrow> extract_title s)"

definition map_dict :: "(string \<times> string) list \<Rightarrow> string option \<Rightarrow> string option" where
  "map_dict d t = (case t of None \<Rightarrow> None | Some w \<Rightarrow> map_of d w)"

definition title_column :: "string option list \<Rightarrow> string option list" where
  "title_column names =
     fillna (Some ''Rare'') (map (\<lambda>n. map_dict title_mapping (str_extract n)) names)"

text \<open>The \<open>.str\<close> accessor exists on object columns only.\<close>

definition add_title :: "table \<Rightarrow> error + table" where
  "add_title df =
     (case get_column df ''Name'' of
        None \<Rightarrow> Inr df
      | Some c \<Rightarrow>
          (case c of
             TextCol names \<Rightarrow> Inr (set_column df ''Title'' (TextCol (title_column names)))
           | IntCol xs \<Rightarrow> Inl AttributeError
           | FloatCol xs \<Rightarrow> Inl AttributeError))"

text \<open>
  Line 100: \<open>df['SibSp'] + df['Parch'] + 1\<close>. Addition of int64 values wraps around;
  NaN is absorbing; on object columns the rows where both cells are present are added as
  Python adds them, so that two strings are concatenated and a string and a number raise
  \<open>TypeError\<close>.
\<close>

definition wrap64 :: "int \<Rightarrow> int" where
  "wrap64 x = (x + 2 ^ 63) mod 2 ^ 64 - 2 ^ 63"

definition both :: "('a \<Rightarrow> 'b \<Rightarrow> 'c) \<Rightarrow> 'a option \<Rightarrow> 'b option \<Rightarrow> 'c option" where
  "both f x y = (case x of None \<Rightarrow> None | Some a \<Rightarrow> (case y of None \<Rightarrow> None | Some b \<Rightarrow> Some (f a b)))"

definition text_meets :: "string option list \<Rightarrow> bool list \<Rightarrow> bool" where
  "text_meets xs there = list_ex (\<lambda>p. fst p \<noteq> None \<and> snd p) (zip xs there)"

definition blank :: "nat \<Rightarrow> column" where
  "blank n = TextCol (replicate n None)"

fun series_add :: "column \<Rightarrow> column \<Rightarrow> error + column" where
  "series_add (IntCol xs) (IntCol ys) = Inr (IntCol (map2 (\<lambda>x y. wrap64 (x + y)) xs ys))"
| "series_add (IntCol xs) (FloatCol ys) =
     Inr (FloatCol (map2 (\<lambda>x y. map_option (\<lambda>v. real_of_int x + v) y) xs ys))"
| "series_add (FloatCol xs) (IntCol ys) =
     Inr (FloatCol (map2 (\<lambda>x y. map_option (\<lambda>v. v + real_of_int y) x) xs ys))"
| "series_add (FloatCol xs) (FloatCol ys) = Inr (FloatCol (map2 (both (+)) xs ys))"
| "series_add (TextCol xs) (TextCol ys) = Inr (TextCol (map2 (both (@)) xs ys))"
| "series_add (TextCol xs) (IntCol ys) =
     (if text_meets xs (map (\<lambda>y. True) ys) then Inl TypeError
      else Inr (blank (min (length xs) (length ys))))"
| "series_add (IntCol xs) (TextCol ys) =
     (if text_meets ys (map (\<lambda>x. True) xs) then Inl TypeError
      else Inr (blank (min (length xs) (length ys))))"
| "series_add (TextCol xs) (FloatCol ys) =
     (if text_meets xs (map (\<lambda>y. y \<noteq> None) ys) then Inl TypeError
      else Inr (blank (min (length xs) (length ys))))"
| "series_add (FloatCol xs) (TextCol ys) =
     (if text_meets ys (map (\<lambda>x. x \<noteq> None) xs) then Inl TypeError
      else Inr (blank (min (length xs) (length ys))))"

fun series_add_one :: "column \<Rightarrow> error + column" where
  "series_add_one (IntCol xs) = Inr (IntCol (map (\<lambda>x. wrap64 (x + 1)) xs))"
| "series_add_one (FloatCol xs) = Inr (FloatCol (map (map_option (\<lambda>v. v + 1)) xs))"
| "series_add_one (TextCol xs) = (if present xs = [] then Inr (TextCol xs) else Inl TypeError)"

definition add_family_size :: "table \<Rightarrow> error + table" where
  "add_family_size df =
     (case get_column df ''SibSp'' of
        None \<Rightarrow> Inr df
      | Some a \<Rightarrow>
          (case get_column df ''Parch'' of
             None \<Rightarrow> Inr df
           | Some b \<Rightarrow>
               and_then (series_add a b) (\<lambda>ab.
               and_then (series_add_one ab) (\<lambda>c.
               Inr (set_column df ''FamilySize'' c)))))"

text \<open>Lines 107-113.\<close>

definition cols_to_drop :: "string list" where
  "cols_to_drop = [''PassengerId'', ''Name'', ''Ticket'']"

definition drop_unused :: "table \<Rightarrow> table" where
  "drop_unused df =
     (let existing_cols_to_drop = filter (has_column df) cols_to_drop
      in if existing_cols_to_drop \<noteq> [] then drop_columns df existing_cols_to_drop else df)"

definition feature_engineering :: "table \<Rightarrow> error + table" where
  "feature_engineering df =
     and_then (add_title df) (\<lambda>df1.
     and_then (add_family_size df1) (\<lambda>df2.
     Inr (drop_unused df2)))"


section \<open>encoding\<close>

text \<open>
  Line 136, \<open>LabelEncoder().fit_transform\<close>: the classes are the distinct present values
  in ascending order, followed by the missing value when there is one; the code of a cell
  is the position of its value among the classes.
\<close>

fun index_of :: "'a \<Rightarrow> 'a list \<Rightarrow> nat" where
  "index_of x [] = 0"
| "index_of x (y # ys) = (if x = y then 0 else Suc (index_of x ys))"

definition label_codes :: "('a::linorder) option list \<Rightarrow> int list" where
  "label_codes xs =
     (let classes = sort (remdups (present xs))
      in map (\<lambda>x. case x of
                     None \<Rightarrow> int (length classes)
                   | Some v \<Rightarrow> int (index_of v classes)) xs)"

fun fit_transform :: "column \<Rightarrow> column" where
  "fit_transform (IntCol xs) = IntCol (label_codes (map Some xs))"
| "fit_transform (FloatCol xs) = IntCol (label_codes xs)"
| "fit_transform (TextCol xs) = IntCol (label_codes xs)"

text \<open>Line 133: the names of the columns of dtype object.\<close>

fun is_object :: "column \<Rightarrow> bool" where
  "is_object (TextCol xs) = True"
| "is_object (IntCol xs) = False"
| "is_object (FloatCol xs) = False"

definition cat_cols :: "table \<Rightarrow> string list" where
  "cat_cols df = map fst (filter (\<lambda>p. is_object (snd p)) (columns df))"

text \<open>Lines 134-136: the body of the loop, and the loop.\<close>

definition encode_one :: "table \<Rightarrow> string \<Rightarrow> table" where
  "encode_one df col =
     (case get_column df col of
        None \<Rightarrow> df
      | Some c \<Rightarrow> set_column df col (fit_transform c))"

definition encoding :: "table \<Rightarrow> table" where
  "encoding df = foldl encode_one df (cat_cols df)"

text \<open>The code of a value as the specification words it: its rank among the distinct
  values of its column in sorted order, that is the number of distinct values below it.
  An absent cell gets the code after the last value.\<close>

definition spec_code :: "string option list \<Rightarrow> string option \<Rightarrow> int" where
  "spec_code xs x =
     (case x of
        None \<Rightarrow> int (card (set (present xs)))
      | Some v \<Rightarrow> int (card {u \<in> set (present xs). u < v}))"

section \<open>scaling\<close>

text \<open>
  Line 160, \<open>np.log1p\<close>. On a number above -1 it is \<open>ln (1 + x)\<close>; below -1 it is NaN
  (with a warning only); at -1 it is minus infinity, which the reals do not have: the
  scaler of line 171, which always receives the \<open>Fare\<close> column, rejects an infinite value
  with \<open>ValueError\<close>, so the step is modelled as raising that error. On a non-empty object
  column the ufunc raises \<open>TypeError\<close>.
\<close>

definition log1p :: "real option \<Rightarrow> real option" where
  "log1p x = (case x of None \<Rightarrow> None | Some v \<Rightarrow> if v > - 1 then Some (ln (1 + v)) else None)"

definition log_column :: "column \<Rightarrow> error + column" where
  "log_column c =
     (case c of
        IntCol xs \<Rightarrow>
          if - 1 \<in> set xs then Inl ValueError
          else Inr (FloatCol (map (\<lambda>x. log1p (Some (real_of_int x))) xs))
      | FloatCol xs \<Rightarrow>
          if Some (- 1) \<in> set xs then Inl ValueError
          else Inr (FloatCol (map log1p xs))
      | TextCol xs \<Rightarrow> if xs = [] then Inr (TextCol xs) else Inl TypeError)"

definition log_fare :: "table \<Rightarrow> error + table" where
  "log_fare df =
     (case get_column df ''Fare'' of
        None \<Rightarrow> Inr df
      | Some c \<Rightarrow> and_then (log_column c) (\<lambda>c'. Inr (set_column df ''Fare'' c')))"

text \<open>
  Line 171, \<open>StandardScaler().fit_transform\<close>. A frame without rows is rejected with
  \<open>ValueError\<close>. The mean and the variance of a column are taken over its present values,
  with divisor n, and NaN stays NaN. The scaler divides by the square root of the
  variance unless it finds the column constant, when it divides by 1. Its test for a
  constant column is a bound on the error of the variance: with n values, mean m and the
  machine epsilon e of doubles, the column counts as constant when the variance is at
  most \<open>n * e * variance + (n * m * e)\<^sup>2\<close>; a variance of 0 always is. All of this is
  computed here in exact arithmetic: the rounding of the doubles is not modelled, and it
  decides the program's result where the values of a column differ by a few rounding
  units only.
\<close>

definition mean :: "real list \<Rightarrow> real" where
  "mean xs = sum_list xs / real (length xs)"

definition pvariance :: "real list \<Rightarrow> real" where
  "pvariance xs = mean (map (\<lambda>x. (x - mean xs)\<^sup>2) xs)"

definition pstd :: "real list \<Rightarrow> real" where
  "pstd xs = sqrt (pvariance xs)"

definition float_eps :: real where
  "float_eps = 1 / 2 ^ 52"

definition near_constant :: "real list \<Rightarrow> bool" where
  "near_constant ps \<longleftrightarrow>
     pvariance ps \<le>
       real (length ps) * float_eps * pvariance ps + (real (length ps) * mean ps * float_eps)\<^sup>2"

definition standardize :: "real option list \<Rightarrow> real option list" where
  "standardize xs =
     (let ps = present xs; mu = mean ps; var = pvariance ps;
          scale = (if near_constant ps then 1 else sqrt var)
      in map (map_option (\<lambda>x. (x - mu) / scale)) xs)"

text \<open>
  The conversion of the input to floats. A cell of an object column goes through Python's
  \<open>float\<close>, which reads a string as a number, reads it as NaN, or raises \<open>ValueError\<close>; a
  string read as an infinity is rejected by the scaler with the same error. What \<open>float\<close>
  makes of a string is a parameter, \<open>py_float\<close>, of the functions below.
\<close>

datatype parsed = Number real | NotANumber | Unparsable

definition float_cell :: "(string \<Rightarrow> parsed) \<Rightarrow> string option \<Rightarrow> real option" where
  "float_cell py_float x =
     (case x of
        None \<Rightarrow> None
      | Some s \<Rightarrow> (case py_float s of Number v \<Rightarrow> Some v | NotANumber \<Rightarrow> None | Unparsable \<Rightarrow> None))"

definition to_float :: "(string \<Rightarrow> parsed) \<Rightarrow> column \<Rightarrow> error + real option list" where
  "to_float py_float c =
     (case c of
        IntCol xs \<Rightarrow> Inr (map (\<lambda>x. Some (real_of_int x)) xs)
      | FloatCol xs \<Rightarrow> Inr xs
      | TextCol xs \<Rightarrow>
          if list_ex (\<lambda>s. py_float s = Unparsable) (present xs) then Inl ValueError
          else Inr (map (float_cell py_float) xs))"

fun scale_cols :: "(string \<Rightarrow> parsed) \<Rightarrow> table \<Rightarrow> string list \<Rightarrow> error + table" where
  "scale_cols py_float df [] = Inr df"
| "scale_cols py_float df (name # names) =
     (case get_column df name of
        None \<Rightarrow> scale_cols py_float df names
      | Some c \<Rightarrow>
          and_then (to_float py_float c) (\<lambda>xs.
          scale_cols py_float (set_column df name (FloatCol (standardize xs))) names))"

definition scaler_fit_transform ::
  "(string \<Rightarrow> parsed) \<Rightarrow> table \<Rightarrow> string list \<Rightarrow> error + table" where
  "scaler_fit_transform py_float df names =
     (if nrows df = 0 then Inl ValueError else scale_cols py_float df names)"

text \<open>Lines 164-171.\<close>

definition num_cols :: "string list" where
  "num_cols = [''Age'', ''Fare'']"

definition scaling :: "(string \<Rightarrow> parsed) \<Rightarrow> table \<Rightarrow> error + table" where
  "scaling py_float df =
     and_then (log_fare df) (\<lambda>df1.
       let valid_cols = filter (has_column df1) num_cols
       in if valid_cols \<noteq> [] then scaler_fit_transform py_float df1 valid_cols
          else Inr df1)"

text \<open>A column after it went through the scaler: divided by its standard deviation, or
  only centred when the scaler found it constant.\<close>

definition centred :: "real option list \<Rightarrow> real option list" where
  "centred xs = map (map_option (\<lambda>x. x - mean (present xs))) xs"

definition unit_scaled :: "real option list \<Rightarrow> real option list" where
  "unit_scaled xs =
     map (map_option (\<lambda>x. (x - mean (present xs)) / pstd (present xs))) xs"

section \<open>load_data, save_data and main\<close>

text \<open>Lines 193-196: the four stages on the frame, in the order of \<open>main\<close>.\<close>

definition transform :: "(string \<Rightarrow> parsed) \<Rightarrow> table \<Rightarrow> error + table" where
  "transform py_float df =
     and_then (handle_missing_values df) (\<lambda>df1.
     and_then (feature_engineering df1) (\<lambda>df2.
     scaling py_float (encoding df2)))"

text \<open>
  The file system, as far as the program touches it: the files with their contents and
  the directories. The format of a file is left open: \<open>read_csv\<close> and \<open>to_csv\<close> are
  parameters of the functions that call them, as \<open>py_float\<close> is.
\<close>

record 'c world =
  files :: "string \<Rightarrow> 'c option"
  dirs :: "string set"

definition RAW_DATA_PATH :: string where
  "RAW_DATA_PATH = ''titanic_raw/titanic.csv''"

definition OUTPUT_PATH :: string where
  "OUTPUT_PATH = ''preprocessing/titanic_preprocessing.csv''"

text \<open>\<open>os.path.exists\<close>.\<close>

definition path_exists :: "'c world \<Rightarrow> string \<Rightarrow> bool" where
  "path_exists w path \<longleftrightarrow> files w path \<noteq> None \<or> path \<in> dirs w"

text \<open>Lines 11-21.\<close>

definition load_data :: "('c \<Rightarrow> error + table) \<Rightarrow> 'c world \<Rightarrow> string \<Rightarrow> error + table" where
  "load_data read_csv w path =
     (if \<not> path_exists w path
      then Inl (FileNotFoundError (''File tidak ditemukan di: '' @ path))
      else (case files w path of
              None \<Rightarrow> Inl IsADirectoryError
            | Some content \<Rightarrow> read_csv content))"

text \<open>\<open>os.path.dirname\<close>: the path up to its last slash, without trailing slashes unless
  it consists of slashes only.\<close>

definition dirname :: "string \<Rightarrow> string" where
  "dirname p =
     (let head = rev (dropWhile (\<lambda>c. c \<noteq> CHR ''/'') (rev p))
      in if head \<noteq> [] \<and> \<not> list_all (\<lambda>c. c = CHR ''/'') head
         then rev (dropWhile (\<lambda>c. c = CHR ''/'') (rev head))
         else head)"

text \<open>\<open>os.makedirs(d, exist_ok=True)\<close>: fails on the empty path and on the path of a file;
  of the directories it creates, the one asked for is recorded.\<close>

definition makedirs :: "string \<Rightarrow> 'c world \<Rightarrow> error + 'c world" where
  "makedirs d w =
     (if d = [] then Inl (FileNotFoundError d)
      else if files w d \<noteq> None then Inl FileExistsError
      else Inr (w\<lparr>dirs := insert d (dirs w)\<rparr>))"

text \<open>Lines 176-186.\<close>

definition save_data ::
  "(table \<Rightarrow> 'c) \<Rightarrow> table \<Rightarrow> string \<Rightarrow> 'c world \<Rightarrow> 'c world \<times> error option" where
  "save_data to_csv df path w =
     (case makedirs (dirname path) w of
        Inl e \<Rightarrow> (w, Some e)
      | Inr w1 \<Rightarrow>
          if path \<in> dirs w1 then (w1, Some IsADirectoryError)
          else (w1\<lparr>files := (files w1)(path \<mapsto> to_csv df)\<rparr>, None))"

text \<open>Lines 189-200. The result is the file system after the run and the error that the
  handler of line 199 reported, if any. The progress messages are not modelled.\<close>

definition main ::
  "('c \<Rightarrow> error + table) \<Rightarrow> (string \<Rightarrow> parsed) \<Rightarrow> (table \<Rightarrow> 'c) \<Rightarrow> 'c world \<Rightarrow>
     'c world \<times> error option" where
  "main read_csv py_float to_csv w =
     (case and_then (load_data read_csv w RAW_DATA_PATH) (transform py_float) of
        Inl e \<Rightarrow> (w, Some e)
      | Inr df \<Rightarrow> save_data to_csv df OUTPUT_PATH w)"

section \<open>The stages on a store of frames\<close>

text \<open>
  The frames of a run are objects that the statements of a stage can change in place. A
  store is the list of the frames allocated so far, a frame is referred to by its
  position, and a new frame is put at the end. A stage takes the reference of its
  argument and gives the store after the call, with the reference it returns or the
  error it raises.
\<close>

type_synonym heap = "table list"

text \<open>\<open>df.copy()\<close>: a new frame with the contents of the old one.\<close>

definition df_copy :: "nat \<Rightarrow> heap \<Rightarrow> heap \<times> (error + nat)" where
  "df_copy r h = (h @ [h ! r], Inr (length h))"

text \<open>A statement that changes the frame \<open>df\<close> refers to: \<open>df[name] = ...\<close> and
  \<open>df.dropna(inplace=True)\<close>. When the right-hand side raises, nothing is changed.\<close>

definition in_place :: "(table \<Rightarrow> error + table) \<Rightarrow> nat \<Rightarrow> heap \<Rightarrow> heap \<times> (error + nat)" where
  "in_place f r h = (case f (h ! r) of Inl e \<Rightarrow> (h, Inl e) | Inr t \<Rightarrow> (h[r := t], Inr r))"

text \<open>A statement that binds \<open>df\<close> to a new frame: \<open>df = df.drop(columns=...)\<close>.\<close>

definition fresh :: "(table \<Rightarrow> table) \<Rightarrow> nat \<Rightarrow> heap \<Rightarrow> heap \<times> (error + nat)" where
  "fresh f r h = (h @ [f (h ! r)], Inr (length h))"

text \<open>The next statement runs unless the one before raised.\<close>

definition next_step ::
  "heap \<times> (error + nat) \<Rightarrow> (nat \<Rightarrow> heap \<Rightarrow> heap \<times> (error + nat)) \<Rightarrow> heap \<times> (error + nat)" where
  "next_step x k = (case snd x of Inl e \<Rightarrow> x | Inr r \<Rightarrow> k r (fst x))"

text \<open>Lines 50-54.\<close>

definition cabin_on :: "nat \<Rightarrow> heap \<Rightarrow> heap \<times> (error + nat)" where
  "cabin_on d h =
     (case get_column (h ! d) ''Cabin'' of
        None \<Rightarrow> (h, Inr d)
      | Some c \<Rightarrow>
          next_step (in_place (\<lambda>t. Inr (set_column t ''hasCabin'' (cabin_flag c))) d h)
            (fresh (\<lambda>t. drop_columns t [''Cabin''])))"

text \<open>Lines 34-62.\<close>

definition handle_missing_values_on :: "nat \<Rightarrow> heap \<Rightarrow> heap \<times> (error + nat)" where
  "handle_missing_values_on r h =
     next_step (df_copy r h) (\<lambda>d h.
     next_step (in_place impute_age d h) (\<lambda>d h.
     next_step (in_place impute_embarked d h) (\<lambda>d h.
     next_step (cabin_on d h) (\<lambda>d h.
     in_place (\<lambda>t. Inr (drop_residual t)) d h))))"

text \<open>Lines 107-113.\<close>

definition drop_unused_on :: "nat \<Rightarrow> heap \<Rightarrow> heap \<times> (error + nat)" where
  "drop_unused_on d h =
     (let existing_cols_to_drop = filter (has_column (h ! d)) cols_to_drop
      in if existing_cols_to_drop \<noteq> []
         then fresh (\<lambda>t. drop_columns t existing_cols_to_drop) d h
         else (h, Inr d))"

text \<open>Lines 74-116.\<close>

definition feature_engineering_on :: "nat \<Rightarrow> heap \<Rightarrow> heap \<times> (error + nat)" where
  "feature_engineering_on r h =
     next_step (df_copy r h) (\<lambda>d h.
     next_step (in_place add_title d h) (\<lambda>d h.
     next_step (in_place add_family_size d h) (\<lambda>d h.
     drop_unused_on d h)))"

text \<open>Lines 128-139.\<close>

definition encoding_on :: "nat \<Rightarrow> heap \<Rightarrow> heap \<times> (error + nat)" where
  "encoding_on r h =
     next_step (df_copy r h) (\<lambda>d h.
     foldl (\<lambda>x col. next_step x (in_place (\<lambda>t. Inr (encode_one t col))))
       (h, Inr d) (cat_cols (h ! d)))"

text \<open>Lines 153-174.\<close>

definition scaling_on ::
  "(string \<Rightarrow> parsed) \<Rightarrow> nat \<Rightarrow> heap \<Rightarrow> heap \<times> (error + nat)" where
  "scaling_on py_float r h =
     next_step (df_copy r h) (\<lambda>d h.
     next_step (in_place log_fare d h) (\<lambda>d h.
     let valid_cols = filter (has_column (h ! d)) num_cols
     in if valid_cols \<noteq> []
        then in_place (\<lambda>t. scaler_fit_transform py_float t valid_cols) d h
        else (h, Inr d)))"

text \<open>
  What a call may do to a store \<open>h\<close>: every frame of \<open>h\<close> is as it was, and the call
  either raises the error that the stage, as a function of the frame, gives, or returns
  a frame allocated after \<open>h\<close> that holds the result of that function.
\<close>

definition extends :: "heap \<Rightarrow> heap \<times> (error + nat) \<Rightarrow> error + table \<Rightarrow> bool" where
  "extends h x F \<longleftrightarrow>
     take (length h) (fst x) = h \<and>
     (case snd x of
        Inl e \<Rightarrow> F = Inl e
      | Inr r \<Rightarrow> length h \<le> r \<and> r < length (fst x) \<and> F = Inr (fst x ! r))"

section \<open>A sample frame\<close>

text \<open>Four passengers in the layout of the Titanic file: the third has no age and no
  port, the fourth no fare, and only the second has a cabin.\<close>

definition titanic_sample :: table where
  "titanic_sample =
     \<lparr>nrows = 4,
      columns =
        [(''PassengerId'', IntCol [1, 2, 3, 4]),
         (''Survived'', IntCol [0, 1, 1, 0]),
         (''Pclass'', IntCol [3, 1, 3, 3]),
         (''Name'', TextCol [Some ''Braund, Mr. Owen Harris'',
                             Some ''Cumings, Mrs. John Bradley'',
                             Some ''Heikkinen, Miss. Laina'',
                             Some ''Moran, Mr. James'']),
         (''Sex'', TextCol [Some ''male'', Some ''female'', Some ''female'', Some ''male'']),
         (''Age'', FloatCol [Some 22, Some 38, None, Some 35]),
         (''SibSp'', IntCol [1, 1, 0, 0]),
         (''Parch'', IntCol [0, 0, 0, 0]),
         (''Ticket'', TextCol [Some ''A/5 21171'', Some ''PC 17599'',
                               Some ''STON/O2. 3101282'', Some ''330877'']),
         (''Fare'', FloatCol [Some 7.25, Some 71.2833, Some 7.925, None]),
         (''Cabin'', TextCol [None, Some ''C85'', None, None]),
         (''Embarked'', TextCol [Some ''S'', Some ''C'', None, Some ''Q''])]\<rparr>"

definition titanic_sample_clean :: table where
  "titanic_sample_clean =
     \<lparr>nrows = 3,
      columns =
        [(''PassengerId'', IntCol [1, 2, 3]),
         (''Survived'', IntCol [0, 1, 1]),
         (''Pclass'', IntCol [3, 1, 3]),
         (''Name'', TextCol [Some ''Braund, Mr. Owen Harris'',
                             Some ''Cumings, Mrs. John Bradley'',
                             Some ''Heikkinen, Miss. Laina'']),
         (''Sex'', TextCol [Some ''male'', Some ''female'', Some ''female'']),
         (''Age'', FloatCol [Some 22, Some 38, Some 35]),
         (''SibSp'', IntCol [1, 1, 0]),
         (''Parch'', IntCol [0, 0, 0]),
         (''Ticket'', TextCol [Some ''A/5 21171'', Some ''PC 17599'',
                               Some ''STON/O2. 3101282'']),
         (''Fare'', FloatCol [Some 7.25, Some 71.2833, Some 7.925]),
         (''Embarked'', TextCol [Some ''S'', Some ''C'', Some ''C'']),
         (''hasCabin'', IntCol [0, 1, 0])]\<rparr>"


definition age_all_absent :: table where
  "age_all_absent =
     \<lparr>nrows = 3,
      columns =
        [(''Survived'', IntCol [0, 1, 1]),
         (''Age'', FloatCol [None, None, None]),
         (''Embarked'', TextCol [Some ''S'', None, Some ''S''])]\<rparr>"


definition titanic_sample_features :: table where
  "titanic_sample_features =
     \<lparr>nrows = 3,
      columns =
        [(''Survived'', IntCol [0, 1, 1]),
         (''Pclass'', IntCol [3, 1, 3]),
         (''Sex'', TextCol [Some ''male'', Some ''female'', Some ''female'']),
         (''Age'', FloatCol [Some 22, Some 38, Some 35]),
         (''SibSp'', IntCol [1, 1, 0]),
         (''Parch'', IntCol [0, 0, 0]),
         (''Fare'', FloatCol [Some 7.25, Some 71.2833, Some 7.925]),
         (''Embarked'', TextCol [Some ''S'', Some ''C'', Some ''C'']),
         (''hasCabin'', IntCol [0, 1, 0]),
         (''Title'', TextCol [Some ''Mr'', Some ''Mrs'', Some ''Miss'']),
         (''FamilySize'', IntCol [2, 2, 1])]\<rparr>"

definition titanic_sample_encoded :: table where
  "titanic_sample_encoded =
     \<lparr>nrows = 3,
      columns =
        [(''Survived'', IntCol [0, 1, 1]),
         (''Pclass'', IntCol [3, 1, 3]),
         (''Sex'', IntCol [1, 0, 0]),
         (''Age'', FloatCol [Some 22, Some 38, Some 35]),
         (''SibSp'', IntCol [1, 1, 0]),
         (''Parch'', IntCol [0, 0, 0]),
         (''Fare'', FloatCol [Some 7.25, Some 71.2833, Some 7.925]),
         (''Embarked'', IntCol [1, 0, 0]),
         (''hasCabin'', IntCol [0, 1, 0]),
         (''Title'', IntCol [1, 2, 0]),
         (''FamilySize'', IntCol [2, 2, 1])]\<rparr>"

text \<open>A frame whose ages are all the same, and what the scaler makes of it and of the
  sample.\<close>

definition constant_age :: table where
  "constant_age =
     \<lparr>nrows = 2,
      columns = [(''Survived'', IntCol [0, 1]), (''Age'', FloatCol [Some 30, Some 30])]\<rparr>"

definition constant_age_scaled :: table where
  "constant_age_scaled =
     \<lparr>nrows = 2,
      columns = [(''Survived'', IntCol [0, 1]), (''Age'', FloatCol [Some 0, Some 0])]\<rparr>"

definition titanic_sample_scaled :: table where
  "titanic_sample_scaled =
     \<lparr>nrows = 3,
      columns =
        [(''Survived'', IntCol [0, 1, 1]),
         (''Pclass'', IntCol [3, 1, 3]),
         (''Sex'', IntCol [1, 0, 0]),
         (''Age'', FloatCol (standardize [Some 22, Some 38, Some 35])),
         (''SibSp'', IntCol [1, 1, 0]),
         (''Parch'', IntCol [0, 0, 0]),
         (''Fare'', FloatCol (standardize (map log1p [Some 7.25, Some 71.2833, Some 7.925]))),
         (''Embarked'', IntCol [1, 0, 0]),
         (''hasCabin'', IntCol [0, 1, 0]),
         (''Title'', IntCol [1, 2, 0]),
         (''FamilySize'', IntCol [2, 2, 1])]\<rparr>"

text \<open>A conversion for the examples: it reads the strings of decimal digits and rejects
  every other string.\<close>

definition digit_value :: "char \<Rightarrow> nat" where
  "digit_value c = of_char c - 48"

definition sample_float :: "string \<Rightarrow> parsed" where
  "sample_float s =
     (if s \<noteq> [] \<and> list_all (\<lambda>c. CHR ''0'' \<le> c \<and> c \<le> CHR ''9'') s
      then Number (real (foldl (\<lambda>n c. 10 * n + digit_value c) 0 s))
      else Unparsable)"

text \<open>A file system without the input file, and one with it.\<close>

definition empty_world :: "table world" where
  "empty_world = \<lparr>files = Map.empty, dirs = {}\<rparr>"

definition sample_world :: "table world" where
  "sample_world = \<lparr>files = [RAW_DATA_PATH \<mapsto> titanic_sample], dirs = {''titanic_raw''}\<rparr>"

section \<open>Basic facts\<close>

lemma and_then_Inr_iff:
  "and_then r f = Inr y \<longleftrightarrow> (\<exists>x. r = Inr x \<and> f x = Inr y)"
  by (cases r) (simp_all add: and_then_def)

lemma isna_length [simp]: "length (isna c) = col_len c"
  by (cases c) simp_all

lemma select_set: "x \<in> set (select m xs) \<Longrightarrow> \<exists>i. i < length xs \<and> i < length m \<and> m ! i \<and> xs ! i = x"
proof -
  assume "x \<in> set (select m xs)"
  then have "(x, True) \<in> set (zip xs m)"
    by (auto simp: select_def)
  then show ?thesis
    by (auto simp: in_set_zip)
qed

lemma select_map: "select m (map f xs) = map f (select m xs)"
proof -
  have "zip (map f xs) m = map (\<lambda>p. (f (fst p), snd p)) (zip xs m)"
    by (simp add: zip_map1 case_prod_unfold)
  then show ?thesis
    by (simp add: select_def filter_map comp_def)
qed

lemma isna_take_rows: "isna (take_rows m c) = select m (isna c)"
  by (cases c) (simp_all add: select_map)

lemma notna_rows_aux:
  "p \<in> set ps \<Longrightarrow>
   i < length (foldr (\<lambda>p m. map2 (\<lambda>a b. \<not> a \<and> b) (isna (snd p)) m) ps m0) \<Longrightarrow>
   foldr (\<lambda>p m. map2 (\<lambda>a b. \<not> a \<and> b) (isna (snd p)) m) ps m0 ! i \<Longrightarrow>
   i < col_len (snd p) \<and> \<not> isna (snd p) ! i"
proof (induction ps arbitrary: i)
  case Nil
  then show ?case by simp
next
  case (Cons q qs)
  let ?r = "foldr (\<lambda>p m. map2 (\<lambda>a b. \<not> a \<and> b) (isna (snd p)) m) qs m0"
  from Cons.prems(2) have i1: "i < col_len (snd q)" and i2: "i < length ?r"
    by simp_all
  from Cons.prems(3) i1 i2 have h: "\<not> isna (snd q) ! i" "?r ! i"
    by simp_all
  show ?case
  proof (cases "p = q")
    case True
    with i1 h show ?thesis by simp
  next
    case False
    with Cons.prems(1) have "p \<in> set qs" by simp
    from Cons.IH[OF this i2 h(2)] show ?thesis .
  qed
qed

lemma dropna_no_null:
  assumes "p \<in> set (columns (dropna df))"
  shows "True \<notin> set (isna (snd p))"
proof
  assume t: "True \<in> set (isna (snd p))"
  from assms obtain q where q: "q \<in> set (columns df)"
    and p: "snd p = take_rows (notna_rows df) (snd q)"
    by (auto simp: dropna_def keep_rows_def)
  from t p have "True \<in> set (select (notna_rows df) (isna (snd q)))"
    by (simp add: isna_take_rows)
  from select_set[OF this] obtain i where
    i: "i < length (notna_rows df)" "notna_rows df ! i" "isna (snd q) ! i"
    by auto
  from notna_rows_aux[OF q] i show False
    unfolding notna_rows_def by blast
qed

lemma null_count_zero:
  assumes "null_count df = 0" "p \<in> set (columns df)"
  shows "True \<notin> set (isna (snd p))"
proof -
  from assms have "length (filter id (isna (snd p))) = 0"
    by (auto simp: null_count_def)
  then have "filter id (isna (snd p)) = []" by simp
  then show ?thesis
    by (auto simp: filter_empty_conv)
qed

lemma drop_residual_no_null:
  "p \<in> set (columns (drop_residual df)) \<Longrightarrow> True \<notin> set (isna (snd p))"
  by (cases "null_count df > 0")
     (simp_all add: drop_residual_def dropna_no_null null_count_zero)


subsection \<open>Column lookup\<close>

lemma map_of_assign_same: "map_of (assign name c ps) name = Some c"
  by (induction ps) auto

lemma map_of_assign_other: "k \<noteq> name \<Longrightarrow> map_of (assign name c ps) k = map_of ps k"
  by (induction ps) auto

lemma get_set_column_same: "get_column (set_column df name c) name = Some c"
  by (simp add: get_column_def set_column_def map_of_assign_same)

lemma get_set_column_other:
  "k \<noteq> name \<Longrightarrow> get_column (set_column df name c) k = get_column df k"
  by (simp add: get_column_def set_column_def map_of_assign_other)

lemma map_of_filter_names:
  "map_of (filter (\<lambda>p. fst p \<notin> S) ps) k = (if k \<in> S then None else map_of ps k)"
  by (induction ps) auto

lemma get_drop_columns:
  "get_column (drop_columns df names) k = (if k \<in> set names then None else get_column df k)"
  by (simp add: get_column_def drop_columns_def map_of_filter_names)

lemma map_of_map_snd: "map_of (map (\<lambda>p. (fst p, f (snd p))) ps) k = map_option f (map_of ps k)"
  by (induction ps) auto

lemma get_keep_rows:
  "get_column (keep_rows m df) k = map_option (take_rows m) (get_column df k)"
  by (simp add: get_column_def keep_rows_def map_of_map_snd)

lemma has_column_iff: "has_column df k \<longleftrightarrow> get_column df k \<noteq> None"
  by (simp add: has_column_def get_column_def col_names_def map_of_eq_None_iff)

lemma get_column_mem: "get_column df k = Some c \<Longrightarrow> (k, c) \<in> set (columns df)"
  by (simp add: get_column_def map_of_SomeD)

subsection \<open>The mode of a series\<close>






lemma present_map_Some [simp]: "present (map Some xs) = xs"
  by (induction xs) (simp_all add: present_def)

lemma present_empty_iff: "present xs = [] \<longleftrightarrow> (\<forall>x \<in> set xs. x = None)"
  by (induction xs) (auto simp: present_def split: option.splits)




lemma fill_age_returns: "\<not> holds_text c \<Longrightarrow> \<exists>c'. fill_age c = Inr c'"
  by (cases c) (simp_all add: fill_age_def)

subsection \<open>What the imputation steps leave alone\<close>

lemma impute_age_other:
  "impute_age df = Inr df1 \<Longrightarrow> k \<noteq> ''Age'' \<Longrightarrow> get_column df1 k = get_column df k"
  by (auto simp: impute_age_def and_then_Inr_iff get_set_column_other split: option.splits)

lemma impute_embarked_other:
  "impute_embarked df = Inr df1 \<Longrightarrow> k \<noteq> ''Embarked'' \<Longrightarrow> get_column df1 k = get_column df k"
  by (auto simp: impute_embarked_def and_then_Inr_iff get_set_column_other split: option.splits)

lemma impute_age_nrows: "impute_age df = Inr df1 \<Longrightarrow> nrows df1 = nrows df"
  by (auto simp: impute_age_def and_then_Inr_iff set_column_def split: option.splits)

lemma impute_embarked_nrows: "impute_embarked df = Inr df1 \<Longrightarrow> nrows df1 = nrows df"
  by (auto simp: impute_embarked_def and_then_Inr_iff set_column_def split: option.splits)

lemma derive_has_cabin_nrows: "nrows (derive_has_cabin df) = nrows df"
  by (simp add: derive_has_cabin_def set_column_def drop_columns_def split: option.splits)

lemma impute_nrows: "impute df = Inr m \<Longrightarrow> nrows m = nrows df"
  by (auto simp: impute_def and_then_Inr_iff derive_has_cabin_nrows
      impute_age_nrows impute_embarked_nrows)

subsection \<open>Well-formed frames stay well formed\<close>

lemma assign_names:
  "map fst (assign name c ps) =
     (if name \<in> set (map fst ps) then map fst ps else map fst ps @ [name])"
  by (induction ps) auto

lemma assign_set: "set (assign name c ps) \<subseteq> insert (name, c) (set ps)"
  by (induction ps) auto

lemma wf_set_column:
  assumes "wf_table df" "col_len c = nrows df"
  shows "wf_table (set_column df name c)"
proof -
  from assms(1) have "distinct (map fst (assign name c (columns df)))"
    by (simp add: assign_names wf_table_def)
  moreover have "\<forall>p \<in> set (assign name c (columns df)). col_len (snd p) = nrows df"
    using assign_set[of name c "columns df"] assms
    by (auto simp: wf_table_def list_all_iff)
  ultimately show ?thesis
    by (simp add: wf_table_def set_column_def list_all_iff)
qed

lemma wf_drop_columns: "wf_table df \<Longrightarrow> wf_table (drop_columns df names)"
  by (auto simp: wf_table_def drop_columns_def list_all_iff distinct_map_filter)

lemma wf_col_len: "wf_table df \<Longrightarrow> get_column df k = Some c \<Longrightarrow> col_len c = nrows df"
  by (auto simp: wf_table_def list_all_iff dest!: get_column_mem)

lemma fillna_length [simp]: "length (fillna v xs) = length xs"
  by (simp add: fillna_def)

lemma fill_age_len: "fill_age c = Inr c' \<Longrightarrow> col_len c' = col_len c"
  by (cases c) (auto simp: fill_age_def split: if_splits)

lemma fill_embarked_len: "fill_embarked c = Inr c' \<Longrightarrow> col_len c' = col_len c"
  by (cases c) (auto simp: fill_embarked_def and_then_Inr_iff)

lemma wf_impute_age: "wf_table df \<Longrightarrow> impute_age df = Inr df1 \<Longrightarrow> wf_table df1"
  using fill_age_len wf_col_len[of df "''Age''"]
  by (auto simp: impute_age_def and_then_Inr_iff split: option.splits intro!: wf_set_column)

lemma wf_impute_embarked: "wf_table df \<Longrightarrow> impute_embarked df = Inr df1 \<Longrightarrow> wf_table df1"
  using fill_embarked_len wf_col_len[of df "''Embarked''"]
  by (auto simp: impute_embarked_def and_then_Inr_iff split: option.splits
      intro!: wf_set_column)

lemma wf_derive_has_cabin: "wf_table df \<Longrightarrow> wf_table (derive_has_cabin df)"
  by (auto simp: derive_has_cabin_def cabin_flag_def split: option.splits
      intro!: wf_drop_columns wf_set_column dest: wf_col_len)

lemma wf_impute: "wf_table df \<Longrightarrow> impute df = Inr m \<Longrightarrow> wf_table m"
  by (auto simp: impute_def and_then_Inr_iff
      intro: wf_derive_has_cabin wf_impute_embarked wf_impute_age)

lemma notna_fold_length:
  "\<forall>p \<in> set ps. col_len (snd p) = length m0 \<Longrightarrow>
   length (foldr (\<lambda>p m. map2 (\<lambda>a b. \<not> a \<and> b) (isna (snd p)) m) ps m0) = length m0"
  by (induction ps) simp_all

lemma notna_rows_length: "wf_table df \<Longrightarrow> length (notna_rows df) = nrows df"
  using notna_fold_length[of "columns df" "replicate (nrows df) True"]
  by (simp add: notna_rows_def wf_table_def list_all_iff)

lemma select_length: "length xs = length m \<Longrightarrow> length (select m xs) = length (filter id m)"
proof (induction xs m rule: list_induct2)
  case Nil
  then show ?case by (simp add: select_def)
next
  case (Cons x xs b m)
  then show ?case by (simp add: select_def)
qed

lemma take_rows_len: "col_len c = length m \<Longrightarrow> col_len (take_rows m c) = length (filter id m)"
  by (cases c) (simp_all add: select_length)

lemma wf_keep_rows:
  assumes "wf_table df" "length m = nrows df"
  shows "wf_table (keep_rows m df)"
proof -
  have "map fst (columns (keep_rows m df)) = map fst (columns df)"
    by (simp add: keep_rows_def comp_def)
  moreover have "\<forall>p \<in> set (columns (keep_rows m df)). col_len (snd p) = nrows (keep_rows m df)"
    using assms by (auto simp: keep_rows_def wf_table_def list_all_iff take_rows_len)
  ultimately show ?thesis
    using assms(1) by (simp add: wf_table_def list_all_iff)
qed

lemma wf_dropna: "wf_table df \<Longrightarrow> wf_table (dropna df)"
  by (simp add: dropna_def wf_keep_rows notna_rows_length)

lemma nrows_dropna: "wf_table df \<Longrightarrow> nrows (dropna df) \<le> nrows df"
  using notna_rows_length[of df] length_filter_le[of id "notna_rows df"]
  by (simp add: dropna_def keep_rows_def)

lemma wf_drop_residual: "wf_table df \<Longrightarrow> wf_table (drop_residual df)"
  by (simp add: drop_residual_def wf_dropna)

lemma nrows_drop_residual: "wf_table df \<Longrightarrow> nrows (drop_residual df) \<le> nrows df"
  by (simp add: drop_residual_def nrows_dropna)

lemma wf_handle_missing_values:
  "wf_table df \<Longrightarrow> handle_missing_values df = Inr df' \<Longrightarrow> wf_table df'"
  by (auto simp: handle_missing_values_def and_then_Inr_iff intro: wf_drop_residual wf_impute)

lemma nrows_handle_missing_values:
  "wf_table df \<Longrightarrow> handle_missing_values df = Inr df' \<Longrightarrow> nrows df' \<le> nrows df"
  using nrows_drop_residual wf_impute impute_nrows
  by (fastforce simp: handle_missing_values_def and_then_Inr_iff)

subsection \<open>A column without a present value\<close>

lemma fillna_None [simp]: "fillna None xs = xs"
  by (induction xs) (simp_all add: fillna_def split: option.splits)

lemma all_absent_present:
  "all_absent (FloatCol xs) \<Longrightarrow> present xs = []"
  "all_absent (TextCol ys) \<Longrightarrow> present ys = []"
  by (simp_all add: all_absent_def list_all_iff present_empty_iff)

lemma fill_age_all_absent: "all_absent c \<Longrightarrow> fill_age c = Inr c"
  by (cases c) (simp_all add: fill_age_def all_absent_present median_def)

lemma null_count_pos:
  assumes "p \<in> set (columns df)" "True \<in> set (isna (snd p))"
  shows "null_count df > 0"
proof (rule ccontr)
  assume "\<not> null_count df > 0"
  then have "null_count df = 0" by simp
  from null_count_zero[OF this assms(1)] assms(2) show False by simp
qed

lemma notna_rows_all_absent:
  assumes "p \<in> set (columns df)" "all_absent (snd p)"
  shows "filter id (notna_rows df) = []"
proof -
  have "\<not> notna_rows df ! i" if "i < length (notna_rows df)" for i
  proof
    assume "notna_rows df ! i"
    with notna_rows_aux[OF assms(1), of i "replicate (nrows df) True"] that
    have "i < col_len (snd p)" "\<not> isna (snd p) ! i"
      by (simp_all add: notna_rows_def)
    with assms(2) show False
      by (simp add: all_absent_def list_all_length)
  qed
  then show ?thesis
    by (auto simp: filter_empty_conv in_set_conv_nth)
qed

subsection \<open>The title pattern\<close>

lemma not_letter_period: "\<not> is_letter CHR ''.''"
  by (simp add: is_letter_def)

lemma match_here_sound:
  assumes "match_here s = Some w"
  shows "w \<noteq> [] \<and> list_all is_letter w \<and> (\<exists>post. s = CHR '' '' # w @ CHR ''.'' # post)"
proof -
  from assms obtain r where s: "s = CHR '' '' # r"
    by (cases s) (auto simp: match_here_def split: if_splits)
  with assms obtain t where t: "dropWhile is_letter r = CHR ''.'' # t"
    and w: "w = takeWhile is_letter r" "w \<noteq> []"
    by (auto simp: match_here_def split: list.splits if_splits)
  have "r = takeWhile is_letter r @ dropWhile is_letter r" by simp
  with t w have "r = w @ CHR ''.'' # t" by simp
  moreover have "list_all is_letter w"
    unfolding w(1) list_all_iff by (auto dest: set_takeWhileD)
  ultimately show ?thesis using s w(2) by simp
qed

lemma match_here_complete:
  assumes "w \<noteq> []" "list_all is_letter w"
  shows "match_here (CHR '' '' # w @ CHR ''.'' # post) = Some w"
proof -
  from assms(2) have a: "\<And>x. x \<in> set w \<Longrightarrow> is_letter x"
    by (simp add: list_all_iff)
  have "takeWhile is_letter (w @ CHR ''.'' # post) = w"
    using a by (simp add: takeWhile_append2 not_letter_period)
  moreover have "dropWhile is_letter (w @ CHR ''.'' # post) = CHR ''.'' # post"
    using a by (simp add: dropWhile_append2 not_letter_period)
  ultimately show ?thesis
    using assms(1) by (simp add: match_here_def)
qed



lemma extract_title_leftmost:
  "extract_title s = Some w \<Longrightarrow> v \<noteq> [] \<Longrightarrow> list_all is_letter v \<Longrightarrow>
   s = pre @ CHR '' '' # v @ CHR ''.'' # post \<Longrightarrow>
   \<exists>pre0 post0. s = pre0 @ CHR '' '' # w @ CHR ''.'' # post0 \<and> length pre0 \<le> length pre"
proof (induction s arbitrary: pre)
  case Nil
  then show ?case by simp
next
  case (Cons c r)
  show ?case
  proof (cases "match_here (c # r)")
    case (Some u)
    with Cons.prems(1) have "u = w" by simp
    with match_here_sound[OF Some] obtain post0 where
      "c # r = [] @ CHR '' '' # w @ CHR ''.'' # post0" by auto
    then show ?thesis by (metis le0 list.size(3))
  next
    case None
    with Cons.prems(1) have e: "extract_title r = Some w" by simp
    have "pre \<noteq> []"
    proof
      assume "pre = []"
      with Cons.prems(4) have "c # r = CHR '' '' # v @ CHR ''.'' # post" by simp
      with match_here_complete[OF Cons.prems(2,3), of post] None show False by simp
    qed
    then obtain pre' where pre: "pre = c # pre'" and r: "r = pre' @ CHR '' '' # v @ CHR ''.'' # post"
      using Cons.prems(4) by (cases pre) auto
    from Cons.IH[OF e Cons.prems(2,3) r] obtain pre0 post0 where
      "r = pre0 @ CHR '' '' # w @ CHR ''.'' # post0" "length pre0 \<le> length pre'"
      by blast
    then have "c # r = (c # pre0) @ CHR '' '' # w @ CHR ''.'' # post0 \<and>
        length (c # pre0) \<le> length pre"
      by (simp add: pre)
    then show ?thesis by blast
  qed
qed

subsection \<open>The title lookup\<close>



subsection \<open>What feature engineering leaves alone\<close>



subsection \<open>Label codes are ranks\<close>

lemma index_of_rank:
  "sorted ys \<Longrightarrow> distinct ys \<Longrightarrow> v \<in> set ys \<Longrightarrow>
   index_of v ys = card {u \<in> set ys. u < v}"
proof (induction ys)
  case Nil
  then show ?case by simp
next
  case (Cons y ys)
  show ?case
  proof (cases "v = y")
    case True
    from Cons.prems(1) have "{u \<in> set (y # ys). u < y} = {}" by auto
    with True show ?thesis by simp
  next
    case False
    with Cons.prems have v: "v \<in> set ys" and yv: "y < v" by auto
    from Cons.prems have ih: "index_of v ys = card {u \<in> set ys. u < v}"
      using Cons.IH v by simp
    have "{u \<in> set (y # ys). u < v} = insert y {u \<in> set ys. u < v}"
      using yv by auto
    moreover have "y \<notin> {u \<in> set ys. u < v}"
      using Cons.prems(2) by simp
    ultimately have "card {u \<in> set (y # ys). u < v} = Suc (card {u \<in> set ys. u < v})"
      by simp
    with False ih show ?thesis by simp
  qed
qed

lemma present_mem: "Some v \<in> set xs \<Longrightarrow> v \<in> set (present xs)"
  by (induction xs) (auto simp: present_def)

lemma label_codes_spec: "label_codes xs = map (spec_code xs) xs"
proof -
  let ?cls = "sort (remdups (present xs))"
  have len: "length (remdups (present xs)) = card (set (present xs))"
    by (rule length_remdups_card_conv)
  have "int (index_of v ?cls) = spec_code xs (Some v)" if "Some v \<in> set xs" for v
    using index_of_rank[of ?cls v] present_mem[OF that]
    by (simp add: spec_code_def)
  moreover have "int (length ?cls) = spec_code xs None"
    by (simp add: spec_code_def len)
  ultimately have "(case x of None \<Rightarrow> int (length ?cls) | Some v \<Rightarrow> int (index_of v ?cls)) =
      spec_code xs x" if "x \<in> set xs" for x
    using that by (cases x) simp_all
  then show ?thesis
    unfolding label_codes_def Let_def by (intro map_cong refl)
qed

subsection \<open>The encoding loop\<close>

lemma assign_map:
  "distinct (map fst ps) \<Longrightarrow> name \<in> fst ` set ps \<Longrightarrow>
   assign name c ps = map (\<lambda>p. if fst p = name then (name, c) else p) ps"
proof (induction ps)
  case Nil
  then show ?case by simp
next
  case (Cons p ps)
  show ?case
  proof (cases "fst p = name")
    case True
    with Cons.prems(1) have "name \<notin> fst ` set ps" by simp
    then have "\<forall>q \<in> set ps. fst q \<noteq> name" by force
    then have "map (\<lambda>p. if fst p = name then (name, c) else p) ps = ps"
      by (simp add: map_idI)
    with True show ?thesis by simp
  next
    case False
    with Cons show ?thesis by auto
  qed
qed

lemma encode_one_columns:
  assumes "distinct (col_names df)" "name \<in> set (col_names df)"
  shows "columns (encode_one df name) =
     map (\<lambda>p. if fst p = name then (fst p, fit_transform (snd p)) else p) (columns df)"
proof -
  from assms(2) obtain c where c: "get_column df name = Some c"
    using has_column_iff[of df name] by (auto simp: has_column_def)
  have "snd p = c" if "p \<in> set (columns df)" "fst p = name" for p
  proof -
    have "(name, snd p) \<in> set (columns df)"
      using that by (metis prod.collapse)
    then have "map_of (columns df) name = Some (snd p)"
      using assms(1) by (simp add: col_names_def)
    with c show ?thesis by (simp add: get_column_def)
  qed
  then have "map (\<lambda>p. if fst p = name then (name, fit_transform c) else p) (columns df) =
      map (\<lambda>p. if fst p = name then (fst p, fit_transform (snd p)) else p) (columns df)"
    by auto
  moreover have "columns (encode_one df name) =
      map (\<lambda>p. if fst p = name then (name, fit_transform c) else p) (columns df)"
    using assms assign_map[of "columns df" name "fit_transform c"]
    by (simp add: encode_one_def c set_column_def col_names_def)
  ultimately show ?thesis by simp
qed

lemma encode_one_names: "col_names (encode_one df name) = col_names df"
proof (cases "get_column df name")
  case None
  then show ?thesis by (simp add: encode_one_def)
next
  case (Some c)
  then have "name \<in> set (map fst (columns df))"
    using has_column_iff[of df name] by (simp add: has_column_def col_names_def)
  with Some show ?thesis
    by (simp add: encode_one_def set_column_def col_names_def assign_names)
qed

lemma encode_loop_columns:
  "distinct (col_names df) \<Longrightarrow> distinct ns \<Longrightarrow> set ns \<subseteq> set (col_names df) \<Longrightarrow>
   columns (foldl encode_one df ns) =
     map (\<lambda>p. if fst p \<in> set ns then (fst p, fit_transform (snd p)) else p) (columns df)"
proof (induction ns arbitrary: df)
  case Nil
  then show ?case by simp
next
  case (Cons n ns)
  let ?d = "encode_one df n"
  have names: "col_names ?d = col_names df" by (rule encode_one_names)
  have one: "columns ?d =
      map (\<lambda>p. if fst p = n then (fst p, fit_transform (snd p)) else p) (columns df)"
    using Cons.prems by (simp add: encode_one_columns)
  have "columns (foldl encode_one ?d ns) =
      map (\<lambda>p. if fst p \<in> set ns then (fst p, fit_transform (snd p)) else p) (columns ?d)"
    using Cons.prems by (intro Cons.IH) (simp_all add: names)
  also have "\<dots> = map (\<lambda>p. if fst p \<in> set (n # ns) then (fst p, fit_transform (snd p)) else p)
      (columns df)"
    using Cons.prems(2) by (auto simp: one)
  finally show ?case by simp
qed

lemma encoding_columns:
  assumes "distinct (col_names df)"
  shows "columns (encoding df) =
     map (\<lambda>p. if is_object (snd p) then (fst p, fit_transform (snd p)) else p) (columns df)"
proof -
  have d: "distinct (cat_cols df)"
    using assms by (simp add: cat_cols_def col_names_def distinct_map_filter)
  have s: "set (cat_cols df) \<subseteq> set (col_names df)"
    by (auto simp: cat_cols_def col_names_def)
  have "fst p \<in> set (cat_cols df) \<longleftrightarrow> is_object (snd p)" if "p \<in> set (columns df)" for p
  proof
    assume "fst p \<in> set (cat_cols df)"
    then obtain q where q: "q \<in> set (columns df)" "is_object (snd q)" "fst q = fst p"
      by (auto simp: cat_cols_def)
    with that assms have "q = p"
      by (metis col_names_def eq_key_imp_eq_value prod.collapse)
    with q show "is_object (snd p)" by simp
  next
    assume "is_object (snd p)"
    with that show "fst p \<in> set (cat_cols df)"
      by (auto simp: cat_cols_def)
  qed
  then have "map (\<lambda>p. if fst p \<in> set (cat_cols df) then (fst p, fit_transform (snd p)) else p)
      (columns df) =
      map (\<lambda>p. if is_object (snd p) then (fst p, fit_transform (snd p)) else p) (columns df)"
    by auto
  with encode_loop_columns[OF assms d s] show ?thesis
    by (simp add: encoding_def)
qed

lemma encoding_nrows: "nrows (encoding df) = nrows df"
proof -
  have "nrows (foldl encode_one d ns) = nrows d" for d ns
    by (induction ns arbitrary: d)
       (simp_all add: encode_one_def set_column_def split: option.splits)
  then show ?thesis by (simp add: encoding_def)
qed

lemma spec_code_order:
  assumes "Some u \<in> set xs" "Some v \<in> set xs"
  shows "spec_code xs (Some u) < spec_code xs (Some v) \<longleftrightarrow> u < v"
proof -
  let ?S = "set (present xs)"
  have mono: "card {w \<in> ?S. w < a} < card {w \<in> ?S. w < b}" if "a < b" "a \<in> ?S" for a b
  proof (rule psubset_card_mono)
    show "finite {w \<in> ?S. w < b}" by simp
    show "{w \<in> ?S. w < a} \<subset> {w \<in> ?S. w < b}"
      using that by auto
  qed
  have u: "u \<in> ?S" and v: "v \<in> ?S"
    using assms by (simp_all add: present_mem)
  show ?thesis
  proof
    assume "spec_code xs (Some u) < spec_code xs (Some v)"
    then have lt: "card {w \<in> ?S. w < u} < card {w \<in> ?S. w < v}"
      by (simp add: spec_code_def)
    show "u < v"
    proof (rule ccontr)
      assume "\<not> u < v"
      then have "v = u \<or> v < u" by auto
      with mono[of v u] v lt show False by auto
    qed
  next
    assume "u < v"
    with mono[of u v] u show "spec_code xs (Some u) < spec_code xs (Some v)"
      by (simp add: spec_code_def)
  qed
qed

subsection \<open>Standardisation\<close>

lemma present_map_option: "present (map (map_option f) xs) = map f (present xs)"
  by (induction xs) (auto simp: present_def split: option.splits)

lemma sum_list_affine:
  "sum_list (map (\<lambda>x. (x - mu) / s) ps) = (sum_list ps - real (length ps) * mu) / (s::real)"
proof (cases "s = 0")
  case True
  then show ?thesis by simp
next
  case False
  then show ?thesis
    by (induction ps) (simp_all add: field_simps)
qed

lemma mean_centered:
  assumes "ps \<noteq> []"
  shows "mean (map (\<lambda>x. (x - mean ps) / s) ps) = 0"
proof -
  from assms have "real (length ps) \<noteq> 0" by simp
  then have "sum_list ps - real (length ps) * mean ps = 0"
    by (simp add: mean_def)
  then show ?thesis
    by (simp add: mean_def sum_list_affine)
qed

lemma sum_list_squares_scaled:
  "sum_list (map (\<lambda>x. ((x - mu) / s)\<^sup>2) ps) = sum_list (map (\<lambda>x. (x - mu)\<^sup>2) ps) / (s::real)\<^sup>2"
  by (induction ps) (simp_all add: power_divide add_divide_distrib)

lemma pvariance_scaled:
  assumes "ps \<noteq> []"
  shows "pvariance (map (\<lambda>x. (x - mean ps) / s) ps) = pvariance ps / s\<^sup>2"
proof -
  let ?zs = "map (\<lambda>x. (x - mean ps) / s) ps"
  have "mean ?zs = 0" by (rule mean_centered[OF assms])
  then have "pvariance ?zs = mean (map (\<lambda>z. z\<^sup>2) ?zs)"
    by (simp add: pvariance_def)
  also have "\<dots> = sum_list (map (\<lambda>x. ((x - mean ps) / s)\<^sup>2) ps) / real (length ps)"
    by (simp add: mean_def comp_def)
  also have "\<dots> = pvariance ps / s\<^sup>2"
    by (simp add: sum_list_squares_scaled pvariance_def mean_def)
  finally show ?thesis .
qed

lemma pvariance_nonneg: "0 \<le> pvariance ps"
proof -
  have "0 \<le> sum_list (map (\<lambda>x. (x - mean ps)\<^sup>2) ps)"
    by (rule sum_list_nonneg) auto
  then show ?thesis
    by (simp add: pvariance_def mean_def[of "map f xs" for f xs])
qed

lemma pvariance_empty: "pvariance [] = 0"
  by (simp add: pvariance_def mean_def)

lemma zero_variance_near_constant: "pvariance ps = 0 \<Longrightarrow> near_constant ps"
  by (simp add: near_constant_def)

lemma not_near_constant:
  assumes "\<not> near_constant ps"
  shows "0 < pvariance ps" and "ps \<noteq> []"
proof -
  from assms zero_variance_near_constant[of ps] have "pvariance ps \<noteq> 0" by blast
  with pvariance_nonneg[of ps] show "0 < pvariance ps" by simp
  then show "ps \<noteq> []" using pvariance_empty by auto
qed

lemma standardize_unit:
  assumes "\<not> near_constant (present xs)"
  shows "standardize xs = unit_scaled xs"
    and "mean (present (standardize xs)) = 0"
    and "pstd (present (standardize xs)) = 1"
proof -
  let ?ps = "present xs"
  note pos = not_near_constant(1)[OF assms] and ne = not_near_constant(2)[OF assms]
  show u: "standardize xs = unit_scaled xs"
    using assms by (simp add: standardize_def unit_scaled_def pstd_def Let_def)
  have p: "present (standardize xs) = map (\<lambda>x. (x - mean ?ps) / sqrt (pvariance ?ps)) ?ps"
    by (simp add: u unit_scaled_def pstd_def present_map_option)
  show "mean (present (standardize xs)) = 0"
    by (simp add: p mean_centered[OF ne])
  have "pvariance (present (standardize xs)) = pvariance ?ps / (sqrt (pvariance ?ps))\<^sup>2"
    by (simp add: p pvariance_scaled[OF ne])
  also have "\<dots> = 1" using pos by simp
  finally show "pstd (present (standardize xs)) = 1" by (simp add: pstd_def)
qed

lemma standardize_centred:
  assumes "near_constant (present xs)"
  shows "standardize xs = centred xs"
    and "pstd (present (standardize xs)) = pstd (present xs)"
proof -
  let ?ps = "present xs"
  show c: "standardize xs = centred xs"
    using assms by (simp add: standardize_def centred_def Let_def)
  show "pstd (present (standardize xs)) = pstd ?ps"
  proof (cases "?ps = []")
    case True
    then show ?thesis by (simp add: c centred_def present_map_option)
  next
    case False
    have "present (standardize xs) = map (\<lambda>x. (x - mean ?ps) / 1) ?ps"
      by (simp add: c centred_def present_map_option)
    then have "pvariance (present (standardize xs)) = pvariance ?ps / 1\<^sup>2"
      by (simp only: pvariance_scaled[OF False])
    then show ?thesis by (simp add: pstd_def)
  qed
qed

lemma standardize_mean:
  assumes "present xs \<noteq> []"
  shows "mean (present (standardize xs)) = 0"
proof (cases "near_constant (present xs)")
  case True
  have "present (standardize xs) = map (\<lambda>x. (x - mean (present xs)) / 1) (present xs)"
    by (simp add: standardize_centred(1)[OF True] centred_def present_map_option)
  then show ?thesis by (simp only: mean_centered[OF assms])
next
  case False
  then show ?thesis by (rule standardize_unit(2))
qed

lemma standardize_facts:
  "(present xs \<noteq> [] \<longrightarrow> mean (present (standardize xs)) = 0) \<and>
   (\<not> near_constant (present xs) \<longrightarrow>
      standardize xs = unit_scaled xs \<and> pstd (present (standardize xs)) = 1) \<and>
   (near_constant (present xs) \<longrightarrow>
      standardize xs = centred xs \<and> pstd (present (standardize xs)) = pstd (present xs))"
  using standardize_mean standardize_unit(1,3) standardize_centred by blast

subsection \<open>The scaler, column by column\<close>

lemma scale_cols_other:
  "scale_cols py_float df names = Inr df' \<Longrightarrow> k \<notin> set names \<Longrightarrow> get_column df' k = get_column df k"
proof (induction names arbitrary: df)
  case Nil
  then show ?case by simp
next
  case (Cons n ns)
  show ?case
  proof (cases "get_column df n")
    case None
    with Cons show ?thesis by simp
  next
    case (Some c)
    with Cons.prems(1) obtain xs where xs: "to_float py_float c = Inr xs"
      and r: "scale_cols py_float (set_column df n (FloatCol (standardize xs))) ns = Inr df'"
      by (auto simp: and_then_Inr_iff)
    from Cons.IH[OF r] Cons.prems(2) show ?thesis
      by (simp add: get_set_column_other)
  qed
qed

lemma scale_cols_col:
  "scale_cols py_float df names = Inr df' \<Longrightarrow> distinct names \<Longrightarrow> name \<in> set names \<Longrightarrow>
   get_column df name = Some c \<Longrightarrow>
   \<exists>xs. to_float py_float c = Inr xs \<and> get_column df' name = Some (FloatCol (standardize xs))"
proof (induction names arbitrary: df)
  case Nil
  then show ?case by simp
next
  case (Cons n ns)
  show ?case
  proof (cases "n = name")
    case True
    with Cons.prems obtain xs where xs: "to_float py_float c = Inr xs"
      and r: "scale_cols py_float (set_column df name (FloatCol (standardize xs))) ns = Inr df'"
      by (auto simp: and_then_Inr_iff)
    from Cons.prems(2) True have "name \<notin> set ns" by simp
    from scale_cols_other[OF r this] xs show ?thesis
      by (simp add: get_set_column_same)
  next
    case False
    with Cons.prems(3) have mem: "name \<in> set ns" by simp
    from Cons.prems(2) have d: "distinct ns" by simp
    show ?thesis
    proof (cases "get_column df n")
      case None
      with Cons.prems(1) have "scale_cols py_float df ns = Inr df'" by simp
      from Cons.IH[OF this d mem Cons.prems(4)] show ?thesis .
    next
      case (Some b)
      with Cons.prems(1) obtain ys where
        r: "scale_cols py_float (set_column df n (FloatCol (standardize ys))) ns = Inr df'"
        by (auto simp: and_then_Inr_iff)
      have "get_column (set_column df n (FloatCol (standardize ys))) name = Some c"
        using False Cons.prems(4) by (simp add: get_set_column_other)
      from Cons.IH[OF r d mem this] show ?thesis .
    qed
  qed
qed

lemma scale_cols_nrows: "scale_cols py_float df names = Inr df' \<Longrightarrow> nrows df' = nrows df"
proof (induction names arbitrary: df)
  case Nil
  then show ?case by simp
next
  case (Cons n ns)
  then show ?case
    by (cases "get_column df n") (auto simp: and_then_Inr_iff set_column_def)
qed

lemma to_float_len: "to_float py_float c = Inr xs \<Longrightarrow> length xs = col_len c"
  by (cases c) (auto simp: to_float_def split: if_splits)

lemma standardize_len [simp]: "length (standardize xs) = length xs"
  by (simp add: standardize_def Let_def)

lemma wf_scale_cols: "wf_table df \<Longrightarrow> scale_cols py_float df names = Inr df' \<Longrightarrow> wf_table df'"
proof (induction names arbitrary: df)
  case Nil
  then show ?case by simp
next
  case (Cons n ns)
  show ?case
  proof (cases "get_column df n")
    case None
    with Cons show ?thesis by simp
  next
    case (Some c)
    with Cons.prems(2) obtain xs where xs: "to_float py_float c = Inr xs"
      and r: "scale_cols py_float (set_column df n (FloatCol (standardize xs))) ns = Inr df'"
      by (auto simp: and_then_Inr_iff)
    have "wf_table (set_column df n (FloatCol (standardize xs)))"
      using wf_col_len[OF Cons.prems(1) Some] to_float_len[OF xs]
      by (intro wf_set_column Cons.prems(1)) simp
    from Cons.IH[OF this r] show ?thesis .
  qed
qed

lemma log_column_len: "log_column c = Inr c' \<Longrightarrow> col_len c' = col_len c"
  by (cases c) (auto simp: log_column_def split: if_splits)

lemma log_fare_other:
  "log_fare df = Inr d \<Longrightarrow> k \<noteq> ''Fare'' \<Longrightarrow> get_column d k = get_column df k"
  by (auto simp: log_fare_def and_then_Inr_iff get_set_column_other split: option.splits)

lemma log_fare_nrows: "log_fare df = Inr d \<Longrightarrow> nrows d = nrows df"
  by (auto simp: log_fare_def and_then_Inr_iff set_column_def split: option.splits)

lemma wf_log_fare: "wf_table df \<Longrightarrow> log_fare df = Inr d \<Longrightarrow> wf_table d"
  using log_column_len wf_col_len[of df "''Fare''"]
  by (auto simp: log_fare_def and_then_Inr_iff split: option.splits intro!: wf_set_column)

lemma log_column_float:
  "log_column c = Inr c' \<Longrightarrow> \<exists>xs. to_float py_float c = Inr xs \<and> to_float py_float c' = Inr (map log1p xs)"
  by (cases c) (auto simp: log_column_def to_float_def comp_def present_def split: if_splits)

lemma scaling_split:
  assumes "scaling py_float df = Inr df'"
  shows "\<exists>d. log_fare df = Inr d \<and>
    (filter (has_column d) num_cols = [] \<longrightarrow> df' = d) \<and>
    (filter (has_column d) num_cols \<noteq> [] \<longrightarrow>
       nrows d \<noteq> 0 \<and> scale_cols py_float d (filter (has_column d) num_cols) = Inr df')"
  using assms
  by (auto simp: scaling_def and_then_Inr_iff Let_def scaler_fit_transform_def
      split: if_splits)

lemma scaling_nrows:
  assumes "scaling py_float df = Inr df'"
  shows "nrows df' = nrows df"
proof -
  from assms obtain d where d: "log_fare df = Inr d"
    and a: "filter (has_column d) num_cols = [] \<Longrightarrow> df' = d"
    and b: "filter (has_column d) num_cols \<noteq> [] \<Longrightarrow>
         nrows d \<noteq> 0 \<and> scale_cols py_float d (filter (has_column d) num_cols) = Inr df'"
    using scaling_split[of py_float df df'] by blast
  show ?thesis
  proof (cases "filter (has_column d) num_cols = []")
    case True
    with a d show ?thesis by (simp add: log_fare_nrows)
  next
    case False
    with b have "scale_cols py_float d (filter (has_column d) num_cols) = Inr df'" by simp
    from scale_cols_nrows[OF this] log_fare_nrows[OF d] show ?thesis by simp
  qed
qed

lemma wf_scaling:
  assumes "wf_table df" "scaling py_float df = Inr df'"
  shows "wf_table df'"
proof -
  from assms(2) obtain d where d: "log_fare df = Inr d"
    and a: "filter (has_column d) num_cols = [] \<Longrightarrow> df' = d"
    and b: "filter (has_column d) num_cols \<noteq> [] \<Longrightarrow>
         nrows d \<noteq> 0 \<and> scale_cols py_float d (filter (has_column d) num_cols) = Inr df'"
    using scaling_split[of py_float df df'] by blast
  have w: "wf_table d" by (rule wf_log_fare[OF assms(1) d])
  show ?thesis
  proof (cases "filter (has_column d) num_cols = []")
    case True
    with a w show ?thesis by simp
  next
    case False
    with b w show ?thesis by (auto intro: wf_scale_cols)
  qed
qed

lemma scaling_column:
  assumes "scaling py_float df = Inr df'" "name \<in> set num_cols" "get_column df name = Some c"
  shows "\<exists>xs. to_float py_float c = Inr xs \<and>
    get_column df' name =
      Some (FloatCol (standardize (if name = ''Fare'' then map log1p xs else xs)))"
proof -
  from assms(1) obtain d where d: "log_fare df = Inr d"
    and a: "filter (has_column d) num_cols = [] \<Longrightarrow> df' = d"
    and b: "filter (has_column d) num_cols \<noteq> [] \<Longrightarrow>
         nrows d \<noteq> 0 \<and> scale_cols py_float d (filter (has_column d) num_cols) = Inr df'"
    using scaling_split[of py_float df df'] by blast
  have sc: "\<exists>ys. to_float py_float c1 = Inr ys \<and>
      get_column df' name = Some (FloatCol (standardize ys))"
    if g: "get_column d name = Some c1" for c1
  proof -
    from g assms(2) have mem: "name \<in> set (filter (has_column d) num_cols)"
      by (simp add: has_column_iff)
    then have "filter (has_column d) num_cols \<noteq> []"
      by (metis empty_iff list.set(1))
    with b have r: "scale_cols py_float d (filter (has_column d) num_cols) = Inr df'" by simp
    have "distinct (filter (has_column d) num_cols)"
      by (simp add: num_cols_def)
    from scale_cols_col[OF r this mem g] show ?thesis .
  qed
  show ?thesis
  proof (cases "name = ''Fare''")
    case True
    with d assms(3) obtain c1 where c1: "log_column c = Inr c1"
      and "d = set_column df ''Fare'' c1"
      by (auto simp: log_fare_def and_then_Inr_iff)
    then have "get_column d name = Some c1"
      by (simp add: True get_set_column_same)
    from sc[OF this] obtain ys where
      ys: "to_float py_float c1 = Inr ys" "get_column df' name = Some (FloatCol (standardize ys))"
      by blast
    from log_column_float[OF c1] obtain xs where
      "to_float py_float c = Inr xs" "to_float py_float c1 = Inr (map log1p xs)"
      by blast
    with ys True show ?thesis by simp
  next
    case False
    from log_fare_other[OF d False] assms(3)
    have "get_column d name = Some c" by simp
    from sc[OF this] False show ?thesis by simp
  qed
qed

lemma scale_cols_absent:
  "scale_cols py_float df names = Inr df' \<Longrightarrow> get_column df k = None \<Longrightarrow> get_column df' k = None"
proof (induction names arbitrary: df)
  case Nil
  then show ?case by simp
next
  case (Cons n ns)
  show ?case
  proof (cases "get_column df n")
    case None
    with Cons show ?thesis by simp
  next
    case (Some c)
    with Cons.prems(1) obtain xs where
      r: "scale_cols py_float (set_column df n (FloatCol (standardize xs))) ns = Inr df'"
      by (auto simp: and_then_Inr_iff)
    from Some Cons.prems(2) have "k \<noteq> n" by auto
    with Cons.prems(2) have "get_column (set_column df n (FloatCol (standardize xs))) k = None"
      by (simp add: get_set_column_other)
    from Cons.IH[OF r this] show ?thesis .
  qed
qed

lemma scaling_absent:
  assumes "scaling py_float df = Inr df'" "get_column df k = None"
  shows "get_column df' k = None"
proof -
  from assms(1) obtain d where d: "log_fare df = Inr d"
    and a: "filter (has_column d) num_cols = [] \<Longrightarrow> df' = d"
    and b: "filter (has_column d) num_cols \<noteq> [] \<Longrightarrow>
         nrows d \<noteq> 0 \<and> scale_cols py_float d (filter (has_column d) num_cols) = Inr df'"
    using scaling_split[of py_float df df'] by blast
  have "get_column d k = None"
  proof (cases "k = ''Fare''")
    case True
    with d assms(2) show ?thesis by (simp add: log_fare_def)
  next
    case False
    from log_fare_other[OF d False] assms(2) show ?thesis by simp
  qed
  then show ?thesis
    using a b scale_cols_absent by (cases "filter (has_column d) num_cols = []") auto
qed

subsection \<open>Rows and well-formedness through the later stages\<close>

lemma title_column_len [simp]: "length (title_column names) = length names"
  by (simp add: title_column_def)

lemma wf_add_title: "wf_table df \<Longrightarrow> add_title df = Inr d \<Longrightarrow> wf_table d"
  using wf_col_len[of df "''Name''"]
  by (auto simp: add_title_def split: option.splits column.splits intro!: wf_set_column)

lemma series_add_len:
  "series_add a b = Inr c \<Longrightarrow> col_len a = n \<Longrightarrow> col_len b = n \<Longrightarrow> col_len c = n"
  by (cases a; cases b) (auto simp: blank_def split: if_splits)

lemma series_add_one_len: "series_add_one a = Inr c \<Longrightarrow> col_len c = col_len a"
  by (cases a) (auto split: if_splits)

lemma wf_add_family_size:
  assumes "wf_table df" "add_family_size df = Inr d"
  shows "wf_table d"
proof (cases "get_column df ''SibSp''")
  case None
  with assms show ?thesis by (simp add: add_family_size_def)
next
  case a: (Some a)
  show ?thesis
  proof (cases "get_column df ''Parch''")
    case None
    with assms a show ?thesis by (simp add: add_family_size_def)
  next
    case b: (Some b)
    with assms(2) a obtain ab c where ab: "series_add a b = Inr ab"
      and c: "series_add_one ab = Inr c" and d: "d = set_column df ''FamilySize'' c"
      by (auto simp: add_family_size_def and_then_Inr_iff)
    have "col_len ab = nrows df"
      by (rule series_add_len[OF ab wf_col_len[OF assms(1) a] wf_col_len[OF assms(1) b]])
    with series_add_one_len[OF c] have "col_len c = nrows df" by simp
    with assms(1) show ?thesis by (simp add: d wf_set_column)
  qed
qed

lemma wf_drop_unused: "wf_table df \<Longrightarrow> wf_table (drop_unused df)"
  by (simp add: drop_unused_def Let_def wf_drop_columns)

lemma wf_feature_engineering:
  "wf_table df \<Longrightarrow> feature_engineering df = Inr d \<Longrightarrow> wf_table d"
  by (auto simp: feature_engineering_def and_then_Inr_iff
      intro: wf_drop_unused wf_add_family_size wf_add_title)

lemma add_title_nrows: "add_title df = Inr d \<Longrightarrow> nrows d = nrows df"
  by (auto simp: add_title_def set_column_def split: option.splits column.splits)

lemma add_family_size_nrows: "add_family_size df = Inr d \<Longrightarrow> nrows d = nrows df"
  by (auto simp: add_family_size_def and_then_Inr_iff set_column_def split: option.splits)

lemma drop_unused_nrows: "nrows (drop_unused df) = nrows df"
  by (simp add: drop_unused_def Let_def drop_columns_def)

lemma feature_engineering_nrows:
  assumes "feature_engineering df = Inr d"
  shows "nrows d = nrows df"
proof -
  from assms obtain d1 d2 where "add_title df = Inr d1" "add_family_size d1 = Inr d2"
    "d = drop_unused d2"
    by (auto simp: feature_engineering_def and_then_Inr_iff)
  then show ?thesis
    by (simp add: drop_unused_nrows add_family_size_nrows add_title_nrows)
qed

lemma label_codes_len [simp]: "length (label_codes xs) = length xs"
  by (simp add: label_codes_def Let_def)

lemma fit_transform_len [simp]: "col_len (fit_transform c) = col_len c"
  by (cases c) simp_all

lemma wf_encoding:
  assumes "wf_table df"
  shows "wf_table (encoding df)"
proof -
  from assms have d: "distinct (col_names df)"
    by (simp add: wf_table_def col_names_def)
  have "map fst (columns (encoding df)) = map fst (columns df)"
    by (simp add: encoding_columns[OF d] comp_def if_distrib[of fst] cong: if_cong)
  moreover have "\<forall>p \<in> set (columns (encoding df)). col_len (snd p) = nrows (encoding df)"
    using assms by (auto simp: encoding_columns[OF d] encoding_nrows wf_table_def list_all_iff)
  ultimately show ?thesis
    using assms by (simp add: wf_table_def list_all_iff)
qed

lemma drop_residual_clean: "null_count m = 0 \<Longrightarrow> drop_residual m = m"
  by (simp add: drop_residual_def)

subsection \<open>The stages on the store follow the stages on frames\<close>

lemma extends_copy: "r < length h \<Longrightarrow> extends h (df_copy r h) (Inr (h ! r))"
  by (simp add: extends_def df_copy_def)

lemma extends_step:
  assumes "extends h x F"
    and "\<And>h1 d t. extends h (h1, Inr d) (Inr t) \<Longrightarrow> extends h (k d h1) (g t)"
  shows "extends h (next_step x k) (and_then F g)"
proof (cases "snd x")
  case (Inl e)
  with assms(1) show ?thesis
    by (simp add: extends_def next_step_def and_then_def)
next
  case (Inr d)
  with assms(1) obtain t where F: "F = Inr t" and "extends h (fst x, Inr d) (Inr t)"
    by (auto simp: extends_def)
  from assms(2)[OF this(2)] F Inr show ?thesis
    by (simp add: next_step_def and_then_def)
qed

lemma extends_in_place:
  assumes "extends h (h1, Inr d) (Inr t)"
  shows "extends h (in_place f d h1) (f t)"
proof -
  from assms have a: "take (length h) h1 = h" "length h \<le> d" "d < length h1" "t = h1 ! d"
    by (simp_all add: extends_def)
  show ?thesis
  proof (cases "f t")
    case (Inl e)
    with a show ?thesis by (simp add: in_place_def extends_def)
  next
    case (Inr u)
    with a show ?thesis by (simp add: in_place_def extends_def)
  qed
qed

lemma extends_fresh:
  assumes "extends h (h1, Inr d) (Inr t)"
  shows "extends h (fresh f d h1) (Inr (f t))"
proof -
  from assms have a: "take (length h) h1 = h" "length h \<le> d" "d < length h1" "t = h1 ! d"
    by (simp_all add: extends_def)
  then have "length h \<le> length h1" by simp
  with a show ?thesis by (simp add: fresh_def extends_def)
qed

lemma extends_cabin:
  assumes "extends h (h1, Inr d) (Inr t)"
  shows "extends h (cabin_on d h1) (Inr (derive_has_cabin t))"
proof -
  from assms have t: "t = h1 ! d" by (simp add: extends_def)
  show ?thesis
  proof (cases "get_column t ''Cabin''")
    case None
    with assms t show ?thesis by (simp add: cabin_on_def derive_has_cabin_def)
  next
    case (Some c)
    have "extends h
        (next_step (in_place (\<lambda>t. Inr (set_column t ''hasCabin'' (cabin_flag c))) d h1)
          (fresh (\<lambda>t. drop_columns t [''Cabin''])))
        (and_then (Inr (set_column t ''hasCabin'' (cabin_flag c)))
          (\<lambda>t. Inr (drop_columns t [''Cabin''])))"
      by (intro extends_step extends_in_place[OF assms] extends_fresh)
    with Some t show ?thesis
      by (simp add: cabin_on_def derive_has_cabin_def and_then_def)
  qed
qed

lemma and_then_Inr [simp]: "and_then (Inr x) f = f x"
  by (simp add: and_then_def)

lemma extends_handle_missing_values:
  assumes "r < length h"
  shows "extends h (handle_missing_values_on r h) (handle_missing_values (h ! r))"
proof -
  have "extends h (handle_missing_values_on r h)
      (and_then (Inr (h ! r)) (\<lambda>t.
       and_then (impute_age t) (\<lambda>t.
       and_then (impute_embarked t) (\<lambda>t.
       and_then (Inr (derive_has_cabin t)) (\<lambda>t. Inr (drop_residual t))))))"
    unfolding handle_missing_values_on_def
    by (intro extends_step extends_copy[OF assms] extends_in_place extends_cabin)
  moreover have "and_then (Inr (h ! r)) (\<lambda>t.
       and_then (impute_age t) (\<lambda>t.
       and_then (impute_embarked t) (\<lambda>t.
       and_then (Inr (derive_has_cabin t)) (\<lambda>t. Inr (drop_residual t))))) =
     handle_missing_values (h ! r)"
    by (simp add: handle_missing_values_def impute_def and_then_def split: sum.splits)
  ultimately show ?thesis by simp
qed

lemma extends_drop_unused:
  assumes "extends h (h1, Inr d) (Inr t)"
  shows "extends h (drop_unused_on d h1) (Inr (drop_unused t))"
proof -
  from assms have t: "t = h1 ! d" by (simp add: extends_def)
  show ?thesis
    using extends_fresh[OF assms,
        of "\<lambda>u. drop_columns u (filter (has_column (h1 ! d)) cols_to_drop)"] assms t
    by (simp add: drop_unused_on_def drop_unused_def Let_def)
qed

lemma extends_feature_engineering:
  assumes "r < length h"
  shows "extends h (feature_engineering_on r h) (feature_engineering (h ! r))"
proof -
  have "extends h (feature_engineering_on r h)
      (and_then (Inr (h ! r)) (\<lambda>t.
       and_then (add_title t) (\<lambda>t.
       and_then (add_family_size t) (\<lambda>t. Inr (drop_unused t)))))"
    unfolding feature_engineering_on_def
    by (intro extends_step extends_copy[OF assms] extends_in_place extends_drop_unused)
  then show ?thesis
    by (simp add: feature_engineering_def)
qed

lemma extends_encode_loop:
  assumes "extends h x (Inr t)"
  shows "extends h
     (foldl (\<lambda>x col. next_step x (in_place (\<lambda>t. Inr (encode_one t col)))) x cols)
     (Inr (foldl encode_one t cols))"
  using assms
proof (induction cols arbitrary: x t)
  case Nil
  then show ?case by simp
next
  case (Cons c cs)
  have "extends h (next_step x (in_place (\<lambda>t. Inr (encode_one t c))))
      (and_then (Inr t) (\<lambda>t. Inr (encode_one t c)))"
    by (intro extends_step Cons.prems extends_in_place)
  then have "extends h (next_step x (in_place (\<lambda>t. Inr (encode_one t c))))
      (Inr (encode_one t c))"
    by simp
  from Cons.IH[OF this] show ?case by simp
qed

lemma extends_encoding:
  assumes "r < length h"
  shows "extends h (encoding_on r h) (Inr (encoding (h ! r)))"
proof -
  have "extends h (encoding_on r h)
      (and_then (Inr (h ! r)) (\<lambda>t. Inr (foldl encode_one t (cat_cols t))))"
    unfolding encoding_on_def
  proof (intro extends_step extends_copy[OF assms])
    fix h1 d t
    assume a: "extends h (h1, Inr d) (Inr t)"
    then have "t = h1 ! d" by (simp add: extends_def)
    with extends_encode_loop[OF a, of "cat_cols t"]
    show "extends h
        (foldl (\<lambda>x col. next_step x (in_place (\<lambda>t. Inr (encode_one t col))))
          (h1, Inr d) (cat_cols (h1 ! d)))
        (Inr (foldl encode_one t (cat_cols t)))"
      by simp
  qed
  then show ?thesis by (simp add: encoding_def)
qed

lemma extends_scaling:
  assumes "r < length h"
  shows "extends h (scaling_on py_float r h) (scaling py_float (h ! r))"
proof -
  have "extends h (scaling_on py_float r h)
      (and_then (Inr (h ! r)) (\<lambda>t.
       and_then (log_fare t) (\<lambda>t.
         let valid_cols = filter (has_column t) num_cols
         in if valid_cols \<noteq> [] then scaler_fit_transform py_float t valid_cols else Inr t)))"
    unfolding scaling_on_def
  proof (intro extends_step extends_copy[OF assms] extends_in_place)
    fix h1 d t
    assume a: "extends h (h1, Inr d) (Inr t)"
    then have t: "t = h1 ! d" by (simp add: extends_def)
    show "extends h
        (let valid_cols = filter (has_column (h1 ! d)) num_cols
         in if valid_cols \<noteq> []
            then in_place (\<lambda>t. scaler_fit_transform py_float t valid_cols) d h1
            else (h1, Inr d))
        (let valid_cols = filter (has_column t) num_cols
         in if valid_cols \<noteq> [] then scaler_fit_transform py_float t valid_cols else Inr t)"
      using a extends_in_place[OF a,
          of "\<lambda>u. scaler_fit_transform py_float u (filter (has_column (h1 ! d)) num_cols)"]
      by (simp add: t Let_def)
  qed
  then show ?thesis by (simp add: scaling_def)
qed

section \<open>The sample frame, evaluated\<close>

lemma mode0_sample_embarked:
  "mode0 [Some ''S'', Some ''C'', None, Some ''Q''] = Inr ''C''"
  by (simp add: mode0_def mode_def present_def)

lemma median_sample_age: "median [Some 22, Some 38, None, Some 35] = Some 35"
  by (simp add: median_def present_def)

lemma impute_titanic_sample:
  "impute titanic_sample =
     Inr \<lparr>nrows = 4,
      columns =
        [(''PassengerId'', IntCol [1, 2, 3, 4]),
         (''Survived'', IntCol [0, 1, 1, 0]),
         (''Pclass'', IntCol [3, 1, 3, 3]),
         (''Name'', TextCol [Some ''Braund, Mr. Owen Harris'',
                             Some ''Cumings, Mrs. John Bradley'',
                             Some ''Heikkinen, Miss. Laina'',
                             Some ''Moran, Mr. James'']),
         (''Sex'', TextCol [Some ''male'', Some ''female'', Some ''female'', Some ''male'']),
         (''Age'', FloatCol [Some 22, Some 38, Some 35, Some 35]),
         (''SibSp'', IntCol [1, 1, 0, 0]),
         (''Parch'', IntCol [0, 0, 0, 0]),
         (''Ticket'', TextCol [Some ''A/5 21171'', Some ''PC 17599'',
                               Some ''STON/O2. 3101282'', Some ''330877'']),
         (''Fare'', FloatCol [Some 7.25, Some 71.2833, Some 7.925, None]),
         (''Embarked'', TextCol [Some ''S'', Some ''C'', Some ''C'', Some ''Q'']),
         (''hasCabin'', IntCol [0, 1, 0, 0])]\<rparr>"
  by (simp add: impute_def impute_age_def impute_embarked_def derive_has_cabin_def
      titanic_sample_def get_column_def set_column_def drop_columns_def and_then_def
      fill_age_def fill_embarked_def cabin_flag_def fillna_def
      mode0_sample_embarked median_sample_age)

lemma hmv_titanic_sample: "handle_missing_values titanic_sample = Inr titanic_sample_clean"
  by (simp add: handle_missing_values_def impute_titanic_sample and_then_def
      drop_residual_def null_count_def dropna_def keep_rows_def notna_rows_def select_def
      titanic_sample_clean_def numeral_eq_Suc)

lemma title_column_sample:
  "title_column [Some ''Braund, Mr. Owen Harris'', Some ''Cumings, Mrs. John Bradley'',
                 Some ''Heikkinen, Miss. Laina'']
   = [Some ''Mr'', Some ''Mrs'', Some ''Miss'']"
  by (simp add: title_column_def str_extract_def map_dict_def title_mapping_def fillna_def
      match_here_def is_letter_def)

lemma add_title_sample:
  "add_title titanic_sample_clean =
     Inr (set_column titanic_sample_clean ''Title''
            (TextCol [Some ''Mr'', Some ''Mrs'', Some ''Miss'']))"
  using title_column_sample
  by (simp add: add_title_def get_column_def titanic_sample_clean_def)

lemma fe_titanic_sample:
  "feature_engineering titanic_sample_clean = Inr titanic_sample_features"
  unfolding feature_engineering_def add_title_sample
  by (simp add: and_then_def add_family_size_def drop_unused_def cols_to_drop_def
      has_column_def col_names_def get_column_def set_column_def drop_columns_def
      titanic_sample_clean_def titanic_sample_features_def wrap64_def)

lemma label_codes_sample:
  "label_codes [Some ''male'', Some ''female'', Some ''female''] = [1, 0, 0]"
  "label_codes [Some ''S'', Some ''C'', Some ''C''] = [1, 0, 0]"
  "label_codes [Some ''Mr'', Some ''Mrs'', Some ''Miss''] = [1, 2, 0]"
  by (simp_all add: label_codes_def present_def)

lemma encoding_titanic_sample: "encoding titanic_sample_features = titanic_sample_encoded"
  by (simp add: encoding_def cat_cols_def encode_one_def get_column_def set_column_def
      titanic_sample_features_def titanic_sample_encoded_def label_codes_sample)

lemma near_constant_30: "near_constant [30, 30]"
  by (simp add: near_constant_def pvariance_def mean_def)

lemma not_near_constant_ages: "\<not> near_constant [22, 38, 35]"
  by (simp add: near_constant_def pvariance_def mean_def float_eps_def power2_eq_square)

lemma to_float_text_sample:
  "to_float sample_float (TextCol [Some ''22'', None, Some ''38'']) = Inr [Some 22, None, Some 38]"
  "to_float sample_float (TextCol [Some ''22'', Some ''unknown'']) = Inl ValueError"
  by (simp_all add: to_float_def float_cell_def sample_float_def digit_value_def present_def)

lemma scaling_titanic_sample: "scaling py_float titanic_sample_encoded = Inr titanic_sample_scaled"
  by (simp add: scaling_def log_fare_def log_column_def scaler_fit_transform_def
      num_cols_def has_column_def col_names_def get_column_def set_column_def
      and_then_def to_float_def titanic_sample_encoded_def titanic_sample_scaled_def)

lemma standardize_constant_age: "standardize [Some 30, Some 30] = [Some 0, Some 0]"
proof -
  have "near_constant (present [Some 30, Some 30])"
    using near_constant_30 by (simp add: present_def)
  then show ?thesis
    by (simp add: standardize_centred(1) centred_def present_def mean_def)
qed

lemma scaling_constant_age: "scaling py_float constant_age = Inr constant_age_scaled"
  by (simp add: scaling_def log_fare_def scaler_fit_transform_def
      num_cols_def has_column_def col_names_def get_column_def set_column_def
      and_then_def to_float_def constant_age_def constant_age_scaled_def
      standardize_constant_age)

lemma hmv_titanic_sample_clean:
  "impute titanic_sample_clean = Inr titanic_sample_clean"
  "null_count titanic_sample_clean = 0"
  "handle_missing_values titanic_sample_clean = Inr titanic_sample_clean"
proof -
  have m: "mode0 [Some ''S'', Some ''C'', Some ''C''] = Inr ''C''"
    by (simp add: mode0_def mode_def present_def)
  have e: "median [Some 22, Some 38, Some 35] = Some 35"
    by (simp add: median_def present_def)
  show i: "impute titanic_sample_clean = Inr titanic_sample_clean"
    by (simp add: impute_def impute_age_def impute_embarked_def derive_has_cabin_def
      titanic_sample_clean_def get_column_def set_column_def and_then_def
      fill_age_def fill_embarked_def fillna_def m e)
  show n: "null_count titanic_sample_clean = 0"
    by (simp add: null_count_def titanic_sample_clean_def)
  from i n show "handle_missing_values titanic_sample_clean = Inr titanic_sample_clean"
    by (simp add: handle_missing_values_def and_then_def drop_residual_def)
qed

lemma transform_titanic_sample:
  "transform py_float titanic_sample = Inr titanic_sample_scaled"
  "transform py_float titanic_sample_clean = Inr titanic_sample_scaled"
  by (simp_all add: transform_def and_then_def hmv_titanic_sample hmv_titanic_sample_clean
      fe_titanic_sample encoding_titanic_sample scaling_titanic_sample)

lemma dirname_output_path: "dirname OUTPUT_PATH = ''preprocessing''"
  by (simp add: dirname_def OUTPUT_PATH_def)

lemma dirname_examples:
  "dirname ''a.csv'' = []" "dirname ''/a.csv'' = ''/''" "dirname ''x//a.csv'' = ''x''"
  by (simp_all add: dirname_def)

lemma main_sample_world:
  "main Inr sample_float id sample_world =
     (\<lparr>files = [RAW_DATA_PATH \<mapsto> titanic_sample, OUTPUT_PATH \<mapsto> titanic_sample_scaled],
       dirs = {''preprocessing'', ''titanic_raw''}\<rparr>, None)"
  by (simp add: main_def load_data_def path_exists_def sample_world_def and_then_def
      transform_titanic_sample save_data_def makedirs_def dirname_def
      OUTPUT_PATH_def RAW_DATA_PATH_def insert_commute)

lemma add_family_size_sample:
  "add_family_size (set_column titanic_sample_clean ''Title''
      (TextCol [Some ''Mr'', Some ''Mrs'', Some ''Miss''])) =
   Inr (set_column (set_column titanic_sample_clean ''Title''
      (TextCol [Some ''Mr'', Some ''Mrs'', Some ''Miss''])) ''FamilySize'' (IntCol [2, 2, 1]))"
  by (simp add: add_family_size_def get_column_def set_column_def titanic_sample_clean_def
      wrap64_def)

lemma feature_engineering_on_sample:
  "feature_engineering_on 0 [titanic_sample_clean] =
     ([titanic_sample_clean,
       set_column (set_column titanic_sample_clean ''Title''
         (TextCol [Some ''Mr'', Some ''Mrs'', Some ''Miss''])) ''FamilySize'' (IntCol [2, 2, 1]),
       titanic_sample_features], Inr 2)"
proof -
  have "drop_unused_on 1 [titanic_sample_clean,
       set_column (set_column titanic_sample_clean ''Title''
         (TextCol [Some ''Mr'', Some ''Mrs'', Some ''Miss''])) ''FamilySize'' (IntCol [2, 2, 1])] =
     ([titanic_sample_clean,
       set_column (set_column titanic_sample_clean ''Title''
         (TextCol [Some ''Mr'', Some ''Mrs'', Some ''Miss''])) ''FamilySize'' (IntCol [2, 2, 1]),
       titanic_sample_features], Inr 2)"
    by (simp add: drop_unused_on_def fresh_def cols_to_drop_def has_column_def col_names_def
        set_column_def drop_columns_def titanic_sample_clean_def titanic_sample_features_def)
  then show ?thesis
    by (simp add: feature_engineering_on_def next_step_def df_copy_def in_place_def
        add_title_sample add_family_size_sample)
qed

section \<open>Claims about the Missing-Value Handler\<close>

text \<open>
  C2. In the frame returned by \<open>handle_missing_values\<close> no cell of any column is absent:
  whatever the imputation steps left absent, the residual drop has removed with its row.
\<close>

theorem C2_no_residual_absence:
  "handle_missing_values df = Inr df' \<Longrightarrow> no_absent df'"
proof -
  assume "handle_missing_values df = Inr df'"
  then obtain m where "df' = drop_residual m"
    by (auto simp: handle_missing_values_def and_then_Inr_iff)
  then show ?thesis
    using drop_residual_no_null[of _ m]
    by (auto simp: no_absent_def list_all_iff list_ex_iff)
qed

theorem C2_no_residual_absence_witness:
  "handle_missing_values titanic_sample = Inr titanic_sample_clean \<and>
   no_absent titanic_sample_clean \<and> nrows titanic_sample_clean = 3"
  using C2_no_residual_absence[OF hmv_titanic_sample] hmv_titanic_sample
  by (simp add: titanic_sample_clean_def)




text \<open>
  C8. When the input has a \<open>Cabin\<close> column, the frame before the residual drop carries a
  column \<open>hasCabin\<close> that is 0 in the rows where \<open>Cabin\<close> is absent and 1 in the others;
  the returned frame has that column restricted to the rows that survive the drop, and it
  has no \<open>Cabin\<close> column.
\<close>

theorem C8_has_cabin:
  assumes "handle_missing_values df = Inr df'" and "get_column df ''Cabin'' = Some c"
  shows "\<not> has_column df' ''Cabin'' \<and>
    (\<exists>m. impute df = Inr m \<and> df' = drop_residual m \<and>
       get_column m ''hasCabin'' =
         Some (IntCol (map (\<lambda>absent. if absent then 0 else 1) (isna c))) \<and>
       get_column df' ''hasCabin'' =
         Some (IntCol (map (\<lambda>absent. if absent then 0 else 1)
           (if null_count m > 0 then select (notna_rows m) (isna c) else isna c))))"
proof -
  from assms(1) obtain m where m: "impute df = Inr m" and df': "df' = drop_residual m"
    by (auto simp: handle_missing_values_def and_then_Inr_iff)
  from m obtain d1 d2 where d1: "impute_age df = Inr d1"
    and d2: "impute_embarked d1 = Inr d2" and md: "m = derive_has_cabin d2"
    by (auto simp: impute_def and_then_Inr_iff)
  have "get_column d2 ''Cabin'' = Some c"
    using impute_embarked_other[OF d2, of "''Cabin''"] impute_age_other[OF d1, of "''Cabin''"]
      assms(2) by simp
  with md have mm: "m = drop_columns (set_column d2 ''hasCabin'' (cabin_flag c)) [''Cabin'']"
    by (simp add: derive_has_cabin_def)
  have flag: "get_column m ''hasCabin'' = Some (cabin_flag c)"
    and gone: "get_column m ''Cabin'' = None"
    by (simp_all add: mm get_drop_columns get_set_column_same)
  have "get_column df' ''Cabin'' = None"
    using gone by (simp add: df' drop_residual_def dropna_def get_keep_rows)
  moreover have "get_column df' ''hasCabin'' =
      Some (IntCol (map (\<lambda>absent. if absent then 0 else 1)
        (if null_count m > 0 then select (notna_rows m) (isna c) else isna c)))"
    using flag
    by (simp add: df' drop_residual_def dropna_def get_keep_rows cabin_flag_def select_map)
  ultimately show ?thesis
    using m df' flag by (auto simp: has_column_iff cabin_flag_def)
qed

theorem C8_has_cabin_witness:
  "handle_missing_values titanic_sample = Inr titanic_sample_clean \<and>
   get_column titanic_sample ''Cabin'' = Some (TextCol [None, Some ''C85'', None, None]) \<and>
   \<not> has_column titanic_sample_clean ''Cabin'' \<and>
   get_column titanic_sample_clean ''hasCabin'' = Some (IntCol [0, 1, 0])"
proof -
  have c: "get_column titanic_sample ''Cabin'' = Some (TextCol [None, Some ''C85'', None, None])"
    by (simp add: get_column_def titanic_sample_def)
  have "get_column titanic_sample_clean ''hasCabin'' = Some (IntCol [0, 1, 0])"
    by (simp add: get_column_def titanic_sample_clean_def)
  with C8_has_cabin[OF hmv_titanic_sample c] hmv_titanic_sample c show ?thesis
    by simp
qed

text \<open>
  C10. When every value of the \<open>Age\<close> column is absent, the median is absent too and the
  imputation leaves the column as it was; the residual drop then removes every row, so
  the returned frame has no row (and every column of it is empty).
\<close>

theorem C10_age_all_absent:
  assumes "wf_table df" and "get_column df ''Age'' = Some c" and "all_absent c"
    and "handle_missing_values df = Inr df'"
  shows "(\<exists>m. impute df = Inr m \<and> get_column m ''Age'' = Some c) \<and>
    nrows df' = 0 \<and> list_all (\<lambda>p. col_len (snd p) = 0) (columns df')"
proof -
  from assms(4) obtain m where m: "impute df = Inr m" and df': "df' = drop_residual m"
    by (auto simp: handle_missing_values_def and_then_Inr_iff)
  from m obtain d1 d2 where d1: "impute_age df = Inr d1"
    and d2: "impute_embarked d1 = Inr d2" and md: "m = derive_has_cabin d2"
    by (auto simp: impute_def and_then_Inr_iff)
  from d1 assms(2) have "d1 = set_column df ''Age'' c"
    by (simp add: impute_age_def fill_age_all_absent[OF assms(3)] and_then_def)
  then have "get_column d1 ''Age'' = Some c"
    by (simp add: get_set_column_same)
  then have "get_column d2 ''Age'' = Some c"
    using impute_embarked_other[OF d2, of "''Age''"] by simp
  then have age: "get_column m ''Age'' = Some c"
    by (simp add: md derive_has_cabin_def get_drop_columns get_set_column_other
        split: option.splits)
  have wfm: "wf_table m" by (rule wf_impute[OF assms(1) m])
  have len: "col_len c = nrows m"
    by (rule wf_col_len[OF wfm age])
  have mem: "(''Age'', c) \<in> set (columns m)"
    by (rule get_column_mem[OF age])
  have zero: "nrows df' = 0"
  proof (cases "nrows m = 0")
    case True
    with nrows_drop_residual[OF wfm] show ?thesis by (simp add: df')
  next
    case False
    with len have "length (isna c) \<noteq> 0" by simp
    then have "isna c \<noteq> []" by (simp del: isna_length)
    with assms(3) have "True \<in> set (isna c)"
      by (cases "isna c") (simp_all add: all_absent_def)
    with null_count_pos[OF mem] have "null_count m > 0" by simp
    moreover have "filter id (notna_rows m) = []"
      using notna_rows_all_absent[OF mem] assms(3) by simp
    ultimately show ?thesis
      by (simp add: df' drop_residual_def dropna_def keep_rows_def)
  qed
  have "wf_table df'"
    by (simp add: df' wf_drop_residual wfm)
  with zero have "list_all (\<lambda>p. col_len (snd p) = 0) (columns df')"
    by (simp add: wf_table_def)
  with m age zero show ?thesis by simp
qed

theorem C10_age_all_absent_witness:
  "wf_table age_all_absent \<and>
   get_column age_all_absent ''Age'' = Some (FloatCol [None, None, None]) \<and>
   all_absent (FloatCol [None, None, None]) \<and>
   handle_missing_values age_all_absent =
     Inr \<lparr>nrows = 0,
          columns = [(''Survived'', IntCol []), (''Age'', FloatCol []),
                     (''Embarked'', TextCol [])]\<rparr> \<and>
   nrows \<lparr>nrows = 0,
          columns = [(''Survived'', IntCol []), (''Age'', FloatCol []),
                     (''Embarked'', TextCol [])]\<rparr> = 0"
proof -
  have w: "wf_table age_all_absent"
    by (simp add: wf_table_def age_all_absent_def)
  have a: "get_column age_all_absent ''Age'' = Some (FloatCol [None, None, None])"
    by (simp add: get_column_def age_all_absent_def)
  have b: "all_absent (FloatCol [None, None, None])"
    by (simp add: all_absent_def)
  have "mode0 [Some ''S'', None, Some ''S''] = Inr ''S''"
    by (simp add: mode0_def mode_def present_def)
  then have h: "handle_missing_values age_all_absent =
     Inr \<lparr>nrows = 0,
          columns = [(''Survived'', IntCol []), (''Age'', FloatCol []),
                     (''Embarked'', TextCol [])]\<rparr>"
    by (simp add: handle_missing_values_def impute_def impute_age_def impute_embarked_def
        derive_has_cabin_def age_all_absent_def get_column_def set_column_def and_then_def
        fill_age_def fill_embarked_def median_def present_def fillna_def
        drop_residual_def null_count_def dropna_def keep_rows_def notna_rows_def select_def
        numeral_eq_Suc)
  from C10_age_all_absent[OF w a b h] w a b h show ?thesis
    by simp
qed

section \<open>Claims about the Feature Engineer\<close>



section \<open>Claims about the Encoder\<close>

text \<open>
  C3. The encoder returns, for every frame with distinct column names, the frame in which
  every text column is replaced by a column of integer codes and every other column is
  kept; the code of a value is its rank among the distinct values of its own column in
  sorted order (an absent cell gets the code after the last value). No column of the
  returned frame is a text column, and the rows are as many as before.
\<close>

theorem C3_encoding:
  assumes "distinct (col_names df)"
  shows "columns (encoding df) =
      map (\<lambda>p. (fst p, case snd p of
                          TextCol xs \<Rightarrow> IntCol (map (spec_code xs) xs)
                        | IntCol ys \<Rightarrow> IntCol ys
                        | FloatCol zs \<Rightarrow> FloatCol zs)) (columns df) \<and>
    list_all (\<lambda>p. \<not> is_object (snd p)) (columns (encoding df)) \<and>
    nrows (encoding df) = nrows df"
proof -
  have "(if is_object (snd p) then (fst p, fit_transform (snd p)) else p) =
      (fst p, case snd p of
                TextCol xs \<Rightarrow> IntCol (map (spec_code xs) xs)
              | IntCol ys \<Rightarrow> IntCol ys
              | FloatCol zs \<Rightarrow> FloatCol zs)" for p :: "string \<times> column"
    by (cases p, cases "snd p") (simp_all add: label_codes_spec)
  with encoding_columns[OF assms] have a: "columns (encoding df) =
      map (\<lambda>p. (fst p, case snd p of
                          TextCol xs \<Rightarrow> IntCol (map (spec_code xs) xs)
                        | IntCol ys \<Rightarrow> IntCol ys
                        | FloatCol zs \<Rightarrow> FloatCol zs)) (columns df)"
    by simp
  have "list_all (\<lambda>p. \<not> is_object (snd p)) (columns (encoding df))"
    unfolding a list_all_iff by (auto split: column.splits)
  with a encoding_nrows show ?thesis by simp
qed

theorem C3_encoding_witness:
  "distinct (col_names titanic_sample_features) \<and>
   encoding titanic_sample_features = titanic_sample_encoded \<and>
   list_all (\<lambda>p. \<not> is_object (snd p)) (columns titanic_sample_encoded) \<and>
   get_column titanic_sample_encoded ''Title'' = Some (IntCol [1, 2, 0])"
proof -
  have d: "distinct (col_names titanic_sample_features)"
    by (simp add: col_names_def titanic_sample_features_def)
  have t: "get_column titanic_sample_encoded ''Title'' = Some (IntCol [1, 2, 0])"
    by (simp add: get_column_def titanic_sample_encoded_def)
  from C3_encoding[OF d]
  have "list_all (\<lambda>p. \<not> is_object (snd p)) (columns (encoding titanic_sample_features))"
    by blast
  then have "list_all (\<lambda>p. \<not> is_object (snd p)) (columns titanic_sample_encoded)"
    by (simp only: encoding_titanic_sample)
  with d t encoding_titanic_sample show ?thesis by blast
qed

section \<open>The Scaler in exact arithmetic\<close>

text \<open>
  C4 speaks of a mean of about 0 and a standard deviation of about 1 within
  floating-point tolerance, that is of the rounding error of the doubles the program
  computes with. The cells of this theory are reals, so the statement is not made here:
  where the values of a column differ by a few rounding units only, the test for a
  constant column and the difference of a value and the mean are decided by rounding,
  and the program's result is far from the exact one. The lemmas of this section say
  what the scaler computes in exact arithmetic.

  A column of equal values: the variance is 0, the scaler divides by 1, and the two ages
  of 30 become 0, with standard deviation 0. On these values doubles compute the same.
\<close>

lemma scaling_constant_column:
  "scaling sample_float constant_age = Inr constant_age_scaled \<and>
   get_column constant_age_scaled ''Age'' = Some (FloatCol [Some 0, Some 0]) \<and>
   pstd (present [Some 0, Some 0]) = 0"
  using scaling_constant_age[of sample_float]
  by (simp add: get_column_def constant_age_scaled_def pstd_def pvariance_def mean_def
      present_def)

text \<open>
  Whenever the scaler returns, each of \<open>Age\<close> and \<open>Fare\<close> that the input has is the
  standardised column of its values, for \<open>Fare\<close> of the values \<open>ln (1 + x)\<close>, with the mean
  and the population variance of that same column. The returned column has mean 0.
  Unless the scaler finds the column constant, every value is the deviation from the
  mean divided by the population standard deviation, and the returned column has
  population standard deviation 1. A column the scaler finds constant is only centred
  and keeps the standard deviation it had.
\<close>

lemma scaling_exact:
  assumes "scaling py_float df = Inr df'" and "name \<in> set num_cols"
    and "get_column df name = Some c"
  shows "\<exists>xs. to_float py_float c = Inr xs \<and>
    (let zs = (if name = ''Fare'' then map log1p xs else xs) in
       get_column df' name = Some (FloatCol (standardize zs)) \<and>
       (present zs \<noteq> [] \<longrightarrow> mean (present (standardize zs)) = 0) \<and>
       (\<not> near_constant (present zs) \<longrightarrow>
          standardize zs = unit_scaled zs \<and> pstd (present (standardize zs)) = 1) \<and>
       (near_constant (present zs) \<longrightarrow>
          standardize zs = centred zs \<and>
          pstd (present (standardize zs)) = pstd (present zs)))"
proof -
  from scaling_column[OF assms] obtain xs where xs: "to_float py_float c = Inr xs"
    and g: "get_column df' name =
      Some (FloatCol (standardize (if name = ''Fare'' then map log1p xs else xs)))"
    by blast
  show ?thesis
    using xs g standardize_facts[of "if name = ''Fare'' then map log1p xs else xs"]
    unfolding Let_def by blast
qed

lemma scaling_exact_sample:
  "scaling sample_float titanic_sample_encoded = Inr titanic_sample_scaled \<and>
   ''Age'' \<in> set num_cols \<and>
   get_column titanic_sample_encoded ''Age'' = Some (FloatCol [Some 22, Some 38, Some 35]) \<and>
   get_column titanic_sample_scaled ''Age'' =
     Some (FloatCol (standardize [Some 22, Some 38, Some 35])) \<and>
   \<not> near_constant (present [Some 22, Some 38, Some 35]) \<and>
   standardize [Some 22, Some 38, Some 35] = unit_scaled [Some 22, Some 38, Some 35] \<and>
   mean (present (standardize [Some 22, Some 38, Some 35])) = 0 \<and>
   pstd (present (standardize [Some 22, Some 38, Some 35])) = 1"
proof -
  have m: "''Age'' \<in> set num_cols" by (simp add: num_cols_def)
  have a: "get_column titanic_sample_encoded ''Age'' =
      Some (FloatCol [Some 22, Some 38, Some 35])"
    by (simp add: get_column_def titanic_sample_encoded_def)
  have g: "get_column titanic_sample_scaled ''Age'' =
     Some (FloatCol (standardize [Some 22, Some 38, Some 35]))"
    by (simp add: get_column_def titanic_sample_scaled_def)
  have p: "present [Some 22, Some 38, Some (35::real)] = [22, 38, 35]"
    by (simp add: present_def)
  have n: "\<not> near_constant (present [Some 22, Some 38, Some 35])"
    using not_near_constant_ages by (simp add: p)
  have f: "to_float sample_float (FloatCol [Some 22, Some 38, Some 35]) =
      Inr [Some 22, Some 38, Some 35]"
    by (simp add: to_float_def)
  from scaling_exact[OF scaling_titanic_sample[of sample_float] m a] f n
  have "standardize [Some 22, Some 38, Some 35] = unit_scaled [Some 22, Some 38, Some 35] \<and>
    mean (present (standardize [Some 22, Some 38, Some 35])) = 0 \<and>
    pstd (present (standardize [Some 22, Some 38, Some 35])) = 1"
    by (auto simp: Let_def p)
  with scaling_titanic_sample[of sample_float] m a g n show ?thesis by blast
qed

section \<open>Claims about the whole pipeline\<close>

text \<open>
  C7. On a well-formed frame the feature engineer, the encoder, the scaler and the
  imputation steps of the missing-value handler return a well-formed frame with as many
  rows as they were given; the handler with its residual drop returns one with at most
  as many. So the four stages in sequence never add a row, and
  when the imputation steps leave no absent value the result has exactly the rows of the
  input.
\<close>

theorem C7_row_count:
  assumes "wf_table df"
  shows "(\<forall>d. feature_engineering df = Inr d \<longrightarrow> nrows d = nrows df \<and> wf_table d) \<and>
    nrows (encoding df) = nrows df \<and> wf_table (encoding df) \<and>
    (\<forall>d. scaling py_float df = Inr d \<longrightarrow> nrows d = nrows df \<and> wf_table d) \<and>
    (\<forall>m. impute df = Inr m \<longrightarrow> nrows m = nrows df \<and> wf_table m) \<and>
    (\<forall>d. handle_missing_values df = Inr d \<longrightarrow> nrows d \<le> nrows df \<and> wf_table d) \<and>
    (\<forall>d. transform py_float df = Inr d \<longrightarrow>
       nrows d \<le> nrows df \<and> wf_table d \<and>
       (\<forall>m. impute df = Inr m \<and> null_count m = 0 \<longrightarrow> nrows d = nrows df))"
proof -
  have fe: "nrows d = nrows df \<and> wf_table d" if "feature_engineering df = Inr d" for d
    using that assms by (simp add: feature_engineering_nrows wf_feature_engineering)
  have sc: "nrows d = nrows df \<and> wf_table d" if "scaling py_float df = Inr d" for d
    using that assms by (simp add: scaling_nrows wf_scaling)
  have im: "nrows m = nrows df \<and> wf_table m" if "impute df = Inr m" for m
    using that assms by (simp add: impute_nrows wf_impute)
  have hm: "nrows d \<le> nrows df \<and> wf_table d" if "handle_missing_values df = Inr d" for d
    using that assms by (simp add: nrows_handle_missing_values wf_handle_missing_values)
  have tr: "nrows d \<le> nrows df \<and> wf_table d \<and>
      (\<forall>m. impute df = Inr m \<and> null_count m = 0 \<longrightarrow> nrows d = nrows df)"
    if t: "transform py_float df = Inr d" for d
  proof -
    from t obtain d1 d2 where d1: "handle_missing_values df = Inr d1"
      and d2: "feature_engineering d1 = Inr d2" and d3: "scaling py_float (encoding d2) = Inr d"
      by (auto simp: transform_def and_then_Inr_iff)
    have w1: "wf_table d1" by (rule wf_handle_missing_values[OF assms d1])
    have w2: "wf_table d2" by (rule wf_feature_engineering[OF w1 d2])
    have w3: "wf_table d" by (rule wf_scaling[OF wf_encoding[OF w2] d3])
    have eq: "nrows d = nrows d1"
      using scaling_nrows[OF d3] feature_engineering_nrows[OF d2] by (simp add: encoding_nrows)
    have "nrows d = nrows df" if m: "impute df = Inr m" "null_count m = 0" for m
    proof -
      from d1 m have "d1 = m"
        by (simp add: handle_missing_values_def and_then_def drop_residual_clean)
      with impute_nrows[OF m(1)] eq show ?thesis by simp
    qed
    with eq nrows_handle_missing_values[OF assms d1] w3 show ?thesis by simp
  qed
  have en: "nrows (encoding df) = nrows df \<and> wf_table (encoding df)"
    using assms by (simp add: encoding_nrows wf_encoding)
  from fe en sc im hm tr show ?thesis by blast
qed

theorem C7_row_count_witness:
  "wf_table titanic_sample \<and> transform sample_float titanic_sample = Inr titanic_sample_scaled \<and>
   nrows titanic_sample = 4 \<and> nrows titanic_sample_scaled = 3 \<and>
   wf_table titanic_sample_clean \<and>
   impute titanic_sample_clean = Inr titanic_sample_clean \<and>
   null_count titanic_sample_clean = 0 \<and>
   transform sample_float titanic_sample_clean = Inr titanic_sample_scaled \<and>
   nrows titanic_sample_scaled = nrows titanic_sample_clean"
proof -
  have w: "wf_table titanic_sample" "wf_table titanic_sample_clean"
    by (simp_all add: wf_table_def titanic_sample_def titanic_sample_clean_def)
  have n: "nrows titanic_sample = 4" "nrows titanic_sample_scaled = 3"
    by (simp_all add: titanic_sample_def titanic_sample_scaled_def)
  from C7_row_count[OF w(1)] transform_titanic_sample(1)
  have "nrows titanic_sample_scaled \<le> nrows titanic_sample" by blast
  moreover from C7_row_count[OF w(2)] transform_titanic_sample(2) hmv_titanic_sample_clean
  have "nrows titanic_sample_scaled = nrows titanic_sample_clean" by blast
  ultimately show ?thesis
    using w n transform_titanic_sample hmv_titanic_sample_clean by blast
qed

text \<open>
  C1. When the path does not exist, \<open>load_data\<close> raises the file-not-found error, whatever
  \<open>read_csv\<close> would do (it is not called). When this is the input path of \<open>main\<close>, the
  run reports that error and leaves the file system as it was: nothing is written.
\<close>

theorem C1_missing_input:
  assumes "\<not> path_exists w path"
  shows "load_data read_csv w path = Inl (FileNotFoundError (''File tidak ditemukan di: '' @ path)) \<and>
    (path = RAW_DATA_PATH \<longrightarrow>
       main read_csv py_float to_csv w =
         (w, Some (FileNotFoundError (''File tidak ditemukan di: '' @ RAW_DATA_PATH))))"
  using assms by (auto simp: load_data_def main_def and_then_def)

theorem C1_missing_input_witness:
  "\<not> path_exists empty_world RAW_DATA_PATH \<and>
   load_data Inr empty_world RAW_DATA_PATH =
     Inl (FileNotFoundError ''File tidak ditemukan di: titanic_raw/titanic.csv'') \<and>
   main Inr sample_float id empty_world =
     (empty_world, Some (FileNotFoundError ''File tidak ditemukan di: titanic_raw/titanic.csv'')) \<and>
   files (fst (main Inr sample_float id empty_world)) OUTPUT_PATH = None"
proof -
  have a: "\<not> path_exists empty_world RAW_DATA_PATH"
    by (simp add: path_exists_def empty_world_def)
  from C1_missing_input[OF a, of Inr sample_float id] a show ?thesis
    by (simp add: RAW_DATA_PATH_def empty_world_def)
qed

text \<open>
  C9. Each of the four stages, called on a frame of the store, leaves that frame and every
  other frame of the store as it was, whether it returns or raises; what it returns is a
  frame allocated by the call, different from its argument, and it holds what the stage
  computes as a function of the argument.
\<close>

theorem C9_private_copy:
  assumes "r < length h"
  shows "extends h (handle_missing_values_on r h) (handle_missing_values (h ! r)) \<and>
    extends h (feature_engineering_on r h) (feature_engineering (h ! r)) \<and>
    extends h (encoding_on r h) (Inr (encoding (h ! r))) \<and>
    extends h (scaling_on py_float r h) (scaling py_float (h ! r)) \<and>
    (\<forall>x F. extends h x F \<longrightarrow>
       fst x ! r = h ! r \<and> (\<forall>i < length h. fst x ! i = h ! i) \<and> snd x \<noteq> Inr r)"
proof -
  have "fst x ! r = h ! r \<and> (\<forall>i < length h. fst x ! i = h ! i) \<and> snd x \<noteq> Inr r"
    if e: "extends h x F" for x F
  proof -
    from e have tk: "take (length h) (fst x) = h" by (simp add: extends_def)
    have nth: "fst x ! i = h ! i" if "i < length h" for i
      using that nth_take[of i "length h" "fst x"] tk by simp
    have "snd x \<noteq> Inr r"
      using e assms by (auto simp: extends_def)
    with nth assms show ?thesis by simp
  qed
  with extends_handle_missing_values[OF assms] extends_feature_engineering[OF assms]
    extends_encoding[OF assms] extends_scaling[OF assms]
  show ?thesis by blast
qed

theorem C9_private_copy_witness:
  "(0::nat) < length [titanic_sample_clean] \<and>
   feature_engineering_on 0 [titanic_sample_clean] =
     ([titanic_sample_clean,
       set_column (set_column titanic_sample_clean ''Title''
         (TextCol [Some ''Mr'', Some ''Mrs'', Some ''Miss''])) ''FamilySize'' (IntCol [2, 2, 1]),
       titanic_sample_features], Inr 2) \<and>
   fst (feature_engineering_on 0 [titanic_sample_clean]) ! 0 = titanic_sample_clean \<and>
   snd (feature_engineering_on 0 [titanic_sample_clean]) \<noteq> Inr 0 \<and>
   feature_engineering titanic_sample_clean = Inr titanic_sample_features"
proof -
  have l: "(0::nat) < length [titanic_sample_clean]" by simp
  from C9_private_copy[OF l]
  have "fst (feature_engineering_on 0 [titanic_sample_clean]) ! 0 = [titanic_sample_clean] ! 0 \<and>
    snd (feature_engineering_on 0 [titanic_sample_clean]) \<noteq> Inr 0"
    by blast
  with feature_engineering_on_sample fe_titanic_sample show ?thesis by simp
qed

end
